theory Spec2Isabelle
  imports Complex_Main "HOL-Library.Multiset"
begin

section \<open>Round Table: the synchronisation core of roundtable.js\<close>

text \<open>
  A shallow embedding of the client-side logic of \<^verbatim>\<open>src/roundtable.js\<close>: the record
  codec, the conditional reads with their ETag cache, the optimistic write, the reaction
  aggregator, the speaker queue and the polling cycle with its backoff.

  Conventions.
  \<^item> A JavaScript string is the list of its UTF-16 code units, each a natural number
    below 65536. \<open>str\<close> turns an ASCII literal into such a list.
  \<^item> \<open>null\<close> and \<open>undefined\<close> are \<open>None\<close>; a thrown exception is the \<open>Inl\<close> of a sum.
  \<^item> A JavaScript number is a \<open>jsnum\<close>: \<open>NaN\<close>, an infinity, or an exact rational; the
    rounding of IEEE doubles is not modelled.
  \<^item> Network answers, \<open>Math.random\<close>, \<open>JSON.parse\<close> and the passphrase check that
    reads the page are inputs of the functions that use them.
  \<^item> The page elements the code touches are taken to exist; what is written to the page
    is left out.
\<close>

subsection \<open>Strings, numbers and JSON values\<close>

type_synonym jsstring = "nat list"

definition str :: "string \<Rightarrow> jsstring" where
  "str s = map of_char s"

datatype jsnum = NaN | PosInf | NegInf | Fin rat

datatype json =
    JNull
  | JBool bool
  | JNum jsnum
  | JStr jsstring
  | JArr "json list"
  | JObj "(jsstring \<times> json) list"

text \<open>
  The record \<open>parseContentVars\<close> returns; \<open>feeling\<close> and \<open>productivity\<close> are a number
  or \<open>null\<close>. \<open>base\<close> and \<open>txtPath\<close> are the \<open>__base\<close> and \<open>__txtPath\<close> the polling
  cycle attaches.
\<close>

record parsed =
  team :: jsstring
  name :: jsstring
  session :: jsstring
  feeling :: "jsnum option"
  productivity :: "jsnum option"
  update :: jsstring
  updated_at :: jsstring
  reactions :: json
  base :: jsstring
  txtPath :: jsstring

text \<open>The \<open>out\<close> that \<open>parseContentVars\<close> starts from.\<close>

definition out_init :: parsed where
  "out_init =
     \<lparr>team = [], name = [], session = [], feeling = None, productivity = None,
      update = [], updated_at = [], reactions = JNull, base = [], txtPath = []\<rparr>"

subsection \<open>Text helpers\<close>

text \<open>Decimal digits of a natural number, as \<open>String(n)\<close> writes them.\<close>

fun show_nat :: "nat \<Rightarrow> jsstring" where
  "show_nat n = (if n < 10 then [48 + n] else show_nat (n div 10) @ [48 + n mod 10])"

declare show_nat.simps [simp del]

text \<open>\<open>x || null\<close> for a string \<open>x\<close> or \<open>undefined\<close>: the empty string is falsy.\<close>

definition or_null :: "jsstring option \<Rightarrow> jsstring option" where
  "or_null x = (case x of None \<Rightarrow> None | Some s \<Rightarrow> if s = [] then None else Some s)"

text \<open>\<open>s.startsWith(p)\<close> and \<open>s.includes(p)\<close>.\<close>

definition startsWith :: "jsstring \<Rightarrow> jsstring \<Rightarrow> bool" where
  "startsWith s p = (take (length p) s = p)"

fun includes_str :: "jsstring \<Rightarrow> jsstring \<Rightarrow> bool" where
  "includes_str [] p = (p = [])"
| "includes_str (c # cs) p = (startsWith (c # cs) p \<or> includes_str cs p)"

text \<open>
  Matching under the \<open>i\<close> flag with an ASCII pattern: a code unit from 128 on never
  folds to an ASCII one, so only the letters \<open>a\<close> to \<open>z\<close> are folded.
\<close>

definition fold_ascii :: "nat \<Rightarrow> nat" where
  "fold_ascii c = (if 97 \<le> c \<and> c \<le> 122 then c - 32 else c)"

definition includes_ci :: "jsstring \<Rightarrow> jsstring \<Rightarrow> bool" where
  "includes_ci s p = includes_str (map fold_ascii s) (map fold_ascii p)"

text \<open>\<open>\w\<close>: a letter, a digit or the underscore.\<close>

definition word_char :: "nat \<Rightarrow> bool" where
  "word_char c = ((48 \<le> c \<and> c \<le> 57) \<or> (65 \<le> c \<and> c \<le> 90) \<or> c = 95 \<or> (97 \<le> c \<and> c \<le> 122))"

subsection \<open>The contents API: answers, errors, the ETag cache\<close>

text \<open>A thrown value: \<open>e.message\<close> and \<open>e.status\<close> (set only where the code sets it).\<close>

datatype jserror = JsError (message: jsstring) (estatus: "nat option")

text \<open>
  What \<open>fetch\<close> resolves to: the status line, the \<open>ETag\<close> header, the body as
  \<open>res.text()\<close> gives it and as \<open>res.json()\<close> gives it (\<open>Inl\<close> when that rejects).
  An answer is \<open>Inl\<close> when \<open>fetch\<close> itself rejects.
\<close>

record 'j response =
  status :: nat
  statusText :: jsstring
  etagHeader :: "jsstring option"
  bodyText :: jsstring
  bodyJson :: "jserror + 'j"

type_synonym 'j answer = "jserror + 'j response"

definition ok :: "'j response \<Rightarrow> bool" where
  "ok r = (200 \<le> status r \<and> status r \<le> 299)"

text \<open>\<open>`${res.status} ${res.statusText}: ${await res.text()}`\<close>\<close>

definition status_message :: "'j response \<Rightarrow> jsstring" where
  "status_message r = show_nat (status r) @ str '' '' @ statusText r @ str '': '' @ bodyText r"

text \<open>
  The JSON of a file of the contents API is an object; the model keeps the fields the
  code reads, each \<open>None\<close> when the object has no such field.
\<close>

record file_json =
  sha :: "jsstring option"
  content :: "jsstring option"
  encoding :: "jsstring option"

text \<open>An entry of \<open>state.cache.files\<close>.\<close>

record file_entry =
  etag :: "jsstring option"
  etext :: jsstring
  esha :: "jsstring option"

text \<open>An entry of \<open>state.cache.dir\<close>, as \<open>ghGetJsonWithEtag\<close> writes it.\<close>

record 'd dir_entry =
  detag :: "jsstring option"
  data :: 'd

text \<open>What \<open>ghGetJsonWithEtag\<close> returns; \<open>rdata\<close> is \<open>undefined\<close> when nothing was cached.\<close>

record 'd etag_result =
  notModified :: bool
  retag :: "jsstring option"
  rdata :: "'d option"

definition ghGetJsonWithEtag ::
  "jsstring \<Rightarrow> (jsstring \<rightharpoonup> 'd dir_entry) \<Rightarrow> 'd answer
     \<Rightarrow> (jserror + 'd etag_result) \<times> (jsstring \<rightharpoonup> 'd dir_entry)" where
  "ghGetJsonWithEtag path cacheObj ans =
     (case ans of
        Inl e \<Rightarrow> (Inl e, cacheObj)
      | Inr res \<Rightarrow>
          if status res = 304 then
            (Inr \<lparr>notModified = True,
                  retag = (case cacheObj path of None \<Rightarrow> None | Some prev \<Rightarrow> detag prev),
                  rdata = map_option data (cacheObj path)\<rparr>, cacheObj)
          else if \<not> ok res then (Inl (JsError (status_message res) None), cacheObj)
          else
            (case bodyJson res of
               Inl e \<Rightarrow> (Inl e, cacheObj)
             | Inr d \<Rightarrow>
                 (Inr \<lparr>notModified = False, retag = etagHeader res, rdata = Some d\<rparr>,
                  cacheObj(path \<mapsto> \<lparr>detag = etagHeader res, data = d\<rparr>))))"

subsection \<open>Base64 and UTF-8: \<open>toBase64\<close> and \<open>fromBase64\<close>\<close>

text \<open>
  \<open>encodeURIComponent\<close> reads the string as code points and throws \<open>URIError\<close> on a
  surrogate that has no partner; \<open>unescape\<close> of its result is the UTF-8 bytes.
\<close>

definition high_surrogate :: "nat \<Rightarrow> bool" where
  "high_surrogate u = (55296 \<le> u \<and> u < 56320)"

definition low_surrogate :: "nat \<Rightarrow> bool" where
  "low_surrogate u = (56320 \<le> u \<and> u < 57344)"

fun code_points :: "jsstring \<Rightarrow> nat list option" where
  "code_points [] = Some []"
| "code_points [u] =
     (if high_surrogate u \<or> low_surrogate u then None else Some [u])"
| "code_points (u # v # us) =
     (if high_surrogate u then
        (if low_surrogate v
         then map_option (\<lambda>cs. (65536 + (u - 55296) * 1024 + (v - 56320)) # cs) (code_points us)
         else None)
      else if low_surrogate u then None
      else map_option (\<lambda>cs. u # cs) (code_points (v # us)))"

definition utf8_of :: "nat \<Rightarrow> nat list" where
  "utf8_of cp =
     (if cp < 128 then [cp]
      else if cp < 2048 then [192 + cp div 64, 128 + cp mod 64]
      else if cp < 65536 then [224 + cp div 4096, 128 + cp div 64 mod 64, 128 + cp mod 64]
      else [240 + cp div 262144, 128 + cp div 4096 mod 64, 128 + cp div 64 mod 64,
            128 + cp mod 64])"

definition utf16_of :: "nat \<Rightarrow> nat list" where
  "utf16_of cp =
     (if cp < 65536 then [cp]
      else [55296 + (cp - 65536) div 1024, 56320 + (cp - 65536) mod 1024])"

text \<open>The Base64 alphabet: the character of a 6-bit value, and back.\<close>

definition b64_char :: "nat \<Rightarrow> nat" where
  "b64_char i =
     (if i < 26 then 65 + i else if i < 52 then 71 + i else if i < 62 then i - 4
      else if i = 62 then 43 else 47)"

definition b64_index :: "nat \<Rightarrow> nat option" where
  "b64_index c =
     (if 65 \<le> c \<and> c \<le> 90 then Some (c - 65)
      else if 97 \<le> c \<and> c \<le> 122 then Some (c - 71)
      else if 48 \<le> c \<and> c \<le> 57 then Some (c + 4)
      else if c = 43 then Some 62
      else if c = 47 then Some 63
      else None)"

fun encode_sextets :: "nat list \<Rightarrow> nat list" where
  "encode_sextets (a # b # c # bs) =
     [a div 4, a mod 4 * 16 + b div 16, b mod 16 * 4 + c div 64, c mod 64] @ encode_sextets bs"
| "encode_sextets [a, b] = [a div 4, a mod 4 * 16 + b div 16, b mod 16 * 4]"
| "encode_sextets [a] = [a div 4, a mod 4 * 16]"
| "encode_sextets [] = []"

text \<open>\<open>btoa\<close>, on a string of bytes: the characters of the sextets, padded with \<open>=\<close>.\<close>

definition btoa :: "nat list \<Rightarrow> jsstring" where
  "btoa bs = map b64_char (encode_sextets bs) @ replicate ((3 - length bs mod 3) mod 3) 61"

fun decode_sextets :: "nat list \<Rightarrow> nat list" where
  "decode_sextets (a # b # c # d # xs) =
     [a * 4 + b div 16, b mod 16 * 16 + c div 4, c mod 4 * 64 + d] @ decode_sextets xs"
| "decode_sextets [a, b, c] = [a * 4 + b div 16, b mod 16 * 16 + c div 4]"
| "decode_sextets [a, b] = [a * 4 + b div 16]"
| "decode_sextets [a] = []"
| "decode_sextets [] = []"

text \<open>
  \<open>atob\<close>, the forgiving Base64 decoding: ASCII whitespace is dropped; when the length
  is a multiple of four, one or two final \<open>=\<close> are dropped; a length of one modulo four
  or a character outside the alphabet throws (\<open>None\<close>).
\<close>

definition ascii_whitespace :: "nat \<Rightarrow> bool" where
  "ascii_whitespace c = (c = 9 \<or> c = 10 \<or> c = 12 \<or> c = 13 \<or> c = 32)"

definition strip_padding :: "jsstring \<Rightarrow> jsstring" where
  "strip_padding d =
     (if length d mod 4 = 0 \<and> d \<noteq> [] \<and> last d = 61 then
        (if butlast d \<noteq> [] \<and> last (butlast d) = 61 then butlast (butlast d) else butlast d)
      else d)"

fun those_opt :: "'a option list \<Rightarrow> 'a list option" where
  "those_opt [] = Some []"
| "those_opt (x # xs) =
     (case x of None \<Rightarrow> None | Some y \<Rightarrow> map_option (\<lambda>ys. y # ys) (those_opt xs))"

definition atob :: "jsstring \<Rightarrow> nat list option" where
  "atob s =
     (let d = strip_padding (filter (\<lambda>c. \<not> ascii_whitespace c) s)
      in if length d mod 4 = 1 then None
         else map_option decode_sextets (those_opt (map b64_index d)))"

text \<open>
  \<open>decodeURIComponent(escape(bytes))\<close>: the strict UTF-8 decoding. It throws on a
  stray or missing continuation byte, on an overlong form, on an encoded surrogate and
  beyond U+10FFFF.
\<close>

definition continuation :: "nat \<Rightarrow> bool" where
  "continuation b = (128 \<le> b \<and> b < 192)"

fun utf8_decode :: "nat list \<Rightarrow> nat list option" where
  "utf8_decode [] = Some []"
| "utf8_decode (b # bs) =
     (if b < 128 then map_option (\<lambda>cs. b # cs) (utf8_decode bs)
      else if 192 \<le> b \<and> b < 224 then
        (case bs of
           c1 # r \<Rightarrow>
             (let cp = (b - 192) * 64 + (c1 - 128)
              in if continuation c1 \<and> 128 \<le> cp
                 then map_option (\<lambda>cs. cp # cs) (utf8_decode r) else None)
         | _ \<Rightarrow> None)
      else if 224 \<le> b \<and> b < 240 then
        (case bs of
           c1 # c2 # r \<Rightarrow>
             (let cp = (b - 224) * 4096 + (c1 - 128) * 64 + (c2 - 128)
              in if continuation c1 \<and> continuation c2 \<and> 2048 \<le> cp
                    \<and> \<not> (55296 \<le> cp \<and> cp < 57344)
                 then map_option (\<lambda>cs. cp # cs) (utf8_decode r) else None)
         | _ \<Rightarrow> None)
      else if 240 \<le> b \<and> b < 248 then
        (case bs of
           c1 # c2 # c3 # r \<Rightarrow>
             (let cp = (b - 240) * 262144 + (c1 - 128) * 4096 + (c2 - 128) * 64 + (c3 - 128)
              in if continuation c1 \<and> continuation c2 \<and> continuation c3
                    \<and> 65536 \<le> cp \<and> cp < 1114112
                 then map_option (\<lambda>cs. cp # cs) (utf8_decode r) else None)
         | _ \<Rightarrow> None)
      else None)"

text \<open>
  \<open>toBase64 = (s) => btoa(unescape(encodeURIComponent(String(s))))\<close>; \<open>Inl\<close> is the
  \<open>URIError\<close> of \<open>encodeURIComponent\<close>.
\<close>

definition uri_error :: jserror where
  "uri_error = JsError (str ''URI malformed'') None"

definition toBase64 :: "jsstring \<Rightarrow> jserror + jsstring" where
  "toBase64 s =
     (case code_points s of
        None \<Rightarrow> Inl uri_error
      | Some cps \<Rightarrow> Inr (btoa (concat (map utf8_of cps))))"

text \<open>
  \<open>fromBase64 = (b) => { try { return decodeURIComponent(escape(atob(b))); }
  catch { return ""; } }\<close>
\<close>

definition fromBase64 :: "jsstring \<Rightarrow> jsstring" where
  "fromBase64 b =
     (case atob b of
        None \<Rightarrow> []
      | Some bytes \<Rightarrow>
          (case utf8_decode bytes of
             None \<Rightarrow> []
           | Some cps \<Rightarrow> concat (map utf16_of cps)))"

text \<open>A Unicode scalar value: a code point that is not a surrogate.\<close>

definition scalar :: "nat \<Rightarrow> bool" where
  "scalar cp = (cp < 1114112 \<and> \<not> (55296 \<le> cp \<and> cp < 57344))"

subsection \<open>String methods the codec uses\<close>

text \<open>
  White space and line terminators, as \<open>trim\<close>, \<open>\s\<close> and \<open>Number\<close> see them: TAB, LF,
  VT, FF, CR, SPACE, NBSP, U+1680, U+2000 to U+200A, U+2028, U+2029, U+202F, U+205F,
  U+3000, U+FEFF.
\<close>

definition white_space :: "nat \<Rightarrow> bool" where
  "white_space c =
     ((9 \<le> c \<and> c \<le> 13) \<or> c = 32 \<or> c = 160 \<or> c = 5760 \<or> (8192 \<le> c \<and> c \<le> 8202)
      \<or> c = 8232 \<or> c = 8233 \<or> c = 8239 \<or> c = 8287 \<or> c = 12288 \<or> c = 65279)"

definition trim :: "jsstring \<Rightarrow> jsstring" where
  "trim s = rev (dropWhile white_space (rev (dropWhile white_space s)))"

text \<open>\<open>s.split(/\r?\n/)\<close>\<close>

fun split_lines :: "jsstring \<Rightarrow> jsstring list" where
  "split_lines [] = [[]]"
| "split_lines (c # cs) =
     (if c = 10 then [] # split_lines cs
      else if c = 13 \<and> cs \<noteq> [] \<and> hd cs = 10 then [] # split_lines (tl cs)
      else (case split_lines cs of
              l # ls \<Rightarrow> (c # l) # ls
            | [] \<Rightarrow> [[c]]))"

text \<open>\<open>lines.join('\n')\<close>\<close>

fun join_lines :: "jsstring list \<Rightarrow> jsstring" where
  "join_lines [] = []"
| "join_lines [l] = l"
| "join_lines (l # m # ls) = l @ 10 # join_lines (m # ls)"

text \<open>\<open>s.indexOf(c)\<close> for one code unit: \<open>None\<close> is \<open>-1\<close>.\<close>

fun indexOf :: "jsstring \<Rightarrow> nat \<Rightarrow> nat option" where
  "indexOf [] c = None"
| "indexOf (x # xs) c = (if x = c then Some 0 else map_option Suc (indexOf xs c))"

text \<open>
  \<open>toUpperCase\<close>, code unit by code unit. Written out: the ASCII letters, the Latin-1
  letters, and the characters beyond whose capital form is made of ASCII letters (sharp
  s, dotless i, long s, the ligatures U+FB00 to U+FB06). Every other code unit is left as
  it is: its capital form holds no ASCII letter, so no comparison with a key of the
  parser depends on it.
\<close>

definition upper_unit :: "nat \<Rightarrow> jsstring" where
  "upper_unit c =
     (if 97 \<le> c \<and> c \<le> 122 then [c - 32]
      else if c = 181 then [924]
      else if c = 223 then [83, 83]
      else if 224 \<le> c \<and> c \<le> 254 \<and> c \<noteq> 247 then [c - 32]
      else if c = 255 then [376]
      else if c = 305 then [73]
      else if c = 383 then [83]
      else if c = 64256 then [70, 70]
      else if c = 64257 then [70, 73]
      else if c = 64258 then [70, 76]
      else if c = 64259 then [70, 70, 73]
      else if c = 64260 then [70, 70, 76]
      else if c = 64261 \<or> c = 64262 then [83, 84]
      else [c])"

definition toUpperCase :: "jsstring \<Rightarrow> jsstring" where
  "toUpperCase s = concat (map upper_unit s)"

subsection \<open>\<open>Number\<close> of a string\<close>

definition is_digit :: "nat \<Rightarrow> bool" where
  "is_digit c = (48 \<le> c \<and> c \<le> 57)"

text \<open>The value of a digit in a base up to 16; \<open>None\<close> when it is no digit of the base.\<close>

definition digit_in :: "nat \<Rightarrow> nat \<Rightarrow> nat option" where
  "digit_in b c =
     (let v = (if 48 \<le> c \<and> c \<le> 57 then Some (c - 48)
               else if 97 \<le> c \<and> c \<le> 102 then Some (c - 87)
               else if 65 \<le> c \<and> c \<le> 70 then Some (c - 55)
               else None)
      in case v of None \<Rightarrow> None | Some d \<Rightarrow> if d < b then Some d else None)"

fun digits_value :: "nat \<Rightarrow> nat \<Rightarrow> jsstring \<Rightarrow> nat option" where
  "digits_value b acc [] = Some acc"
| "digits_value b acc (c # cs) =
     (case digit_in b c of None \<Rightarrow> None | Some d \<Rightarrow> digits_value b (acc * b + d) cs)"

text \<open>One or more digits of the base, and nothing else.\<close>

definition numeral_in :: "nat \<Rightarrow> jsstring \<Rightarrow> nat option" where
  "numeral_in b ds = (if ds = [] then None else digits_value b 0 ds)"

text \<open>The exponent part after \<open>e\<close> or \<open>E\<close>: an optional sign and one or more digits.\<close>

definition exponent_of :: "jsstring \<Rightarrow> int option" where
  "exponent_of t =
     (case t of
        [] \<Rightarrow> None
      | c # cs \<Rightarrow>
          if c = 45 then map_option (\<lambda>n. - int n) (numeral_in 10 cs)
          else if c = 43 then map_option int (numeral_in 10 cs)
          else map_option int (numeral_in 10 t))"

definition scale10 :: "rat \<Rightarrow> int \<Rightarrow> rat" where
  "scale10 x e = (if 0 \<le> e then x * 10 ^ nat e else x / 10 ^ nat (- e))"

text \<open>
  An unsigned decimal literal: \<open>Infinity\<close>, or digits with an optional fraction and an
  optional exponent, with at least one digit before or after the point.
\<close>

definition unsigned_decimal :: "jsstring \<Rightarrow> jsnum" where
  "unsigned_decimal t =
     (if t = str ''Infinity'' then PosInf
      else
        let ip = takeWhile is_digit t;
            r1 = dropWhile is_digit t;
            dot = (r1 \<noteq> [] \<and> hd r1 = 46);
            fp = (if dot then takeWhile is_digit (tl r1) else []);
            r2 = (if dot then dropWhile is_digit (tl r1) else r1);
            ex = (if r2 = [] then Some 0
                  else if hd r2 = 101 \<or> hd r2 = 69 then exponent_of (tl r2)
                  else None)
        in if ip = [] \<and> fp = [] then NaN
           else
             (case (digits_value 10 0 ip, digits_value 10 0 fp, ex) of
                (Some i, Some f, Some e) \<Rightarrow>
                  Fin (scale10 (of_nat i + of_nat f / 10 ^ length fp) e)
              | _ \<Rightarrow> NaN))"

definition negate :: "jsnum \<Rightarrow> jsnum" where
  "negate x = (case x of NaN \<Rightarrow> NaN | PosInf \<Rightarrow> NegInf | NegInf \<Rightarrow> PosInf | Fin q \<Rightarrow> Fin (- q))"

definition fin_of :: "nat option \<Rightarrow> jsnum" where
  "fin_of v = (case v of None \<Rightarrow> NaN | Some n \<Rightarrow> Fin (of_nat n))"

text \<open>
  \<open>Number(s)\<close>: white space around the literal is dropped; the empty string is 0; a
  literal in base 16, 8 or 2 takes no sign; anything else is \<open>NaN\<close>. The value of a
  literal is kept exact here, where the code holds the double nearest to it. The two are
  the same number whenever the exact value is a whole number of at most \<open>2^53\<close> in
  absolute value, as every rating is, and whether the result is \<open>NaN\<close> does not depend on
  the rounding; they differ on a literal with more digits than a double holds and on one
  beyond its range (\<open>1e400\<close> is \<open>Infinity\<close> in the code, \<open>1e-400\<close> is 0).
\<close>

definition Number :: "jsstring \<Rightarrow> jsnum" where
  "Number s =
     (let t = trim s
      in if t = [] then Fin 0
         else if startsWith t (str ''0x'') \<or> startsWith t (str ''0X'')
           then fin_of (numeral_in 16 (drop 2 t))
         else if startsWith t (str ''0o'') \<or> startsWith t (str ''0O'')
           then fin_of (numeral_in 8 (drop 2 t))
         else if startsWith t (str ''0b'') \<or> startsWith t (str ''0B'')
           then fin_of (numeral_in 2 (drop 2 t))
         else if hd t = 45 then negate (unsigned_decimal (tl t))
         else if hd t = 43 then unsigned_decimal (tl t)
         else unsigned_decimal t)"

text \<open>\<open>Number(val) || null\<close>: \<open>NaN\<close> and zero are falsy.\<close>

definition number_or_null :: "jsnum \<Rightarrow> jsnum option" where
  "number_or_null x = (if x = NaN \<or> x = Fin 0 then None else Some x)"

text \<open>\<open>`${n}`\<close> for a whole number \<open>n\<close>.\<close>

definition show_int :: "int \<Rightarrow> jsstring" where
  "show_int n = (if n < 0 then 45 # show_nat (nat (- n)) else show_nat (nat n))"

subsection \<open>JSON values as the code reads them\<close>

text \<open>Truthiness.\<close>

fun truthy :: "json \<Rightarrow> bool" where
  "truthy JNull = False"
| "truthy (JBool b) = b"
| "truthy (JNum x) = (x \<noteq> NaN \<and> x \<noteq> Fin 0)"
| "truthy (JStr s) = (s \<noteq> [])"
| "truthy (JArr xs) = True"
| "truthy (JObj kvs) = True"

text \<open>
  \<open>v[k]\<close> for a key \<open>k\<close> that is neither an index nor a property every object has
  (the code asks for \<open>by_target\<close> and the three emoji): \<open>None\<close> is \<open>undefined\<close>.
  Only an object parsed from JSON has such a property of its own.
\<close>

fun get_prop :: "json \<Rightarrow> jsstring \<Rightarrow> json option" where
  "get_prop (JObj kvs) k = map_of kvs k"
| "get_prop v k = None"

definition truthy_opt :: "json option \<Rightarrow> bool" where
  "truthy_opt v = (case v of None \<Rightarrow> False | Some x \<Rightarrow> truthy x)"

text \<open>\<open>obj[k] = v\<close> on an object: an existing key keeps its place.\<close>

fun set_prop :: "(jsstring \<times> json) list \<Rightarrow> jsstring \<Rightarrow> json \<Rightarrow> (jsstring \<times> json) list" where
  "set_prop [] k v = [(k, v)]"
| "set_prop ((k', v') # kvs) k v =
     (if k' = k then (k, v) # kvs else (k', v') # set_prop kvs k v)"

fun indexed :: "nat \<Rightarrow> 'a list \<Rightarrow> (jsstring \<times> 'a) list" where
  "indexed i [] = []"
| "indexed i (x # xs) = (show_nat i, x) # indexed (Suc i) xs"

text \<open>
  \<open>Object.entries(v)\<close>: the properties of an object, the indexed elements of an
  array, the indexed code units of a string, nothing for a number or a boolean.
\<close>

fun entries :: "json \<Rightarrow> (jsstring \<times> json) list" where
  "entries (JObj kvs) = kvs"
| "entries (JArr xs) = indexed 0 xs"
| "entries (JStr s) = indexed 0 (map (\<lambda>u. JStr [u]) s)"
| "entries v = []"

definition by_target_key :: jsstring where
  "by_target_key = str ''by_target''"

definition updated_at_key :: jsstring where
  "updated_at_key = str ''updated_at''"

text \<open>\<open>{ updated_at: null, by_target: {} }\<close>\<close>

definition no_reactions :: json where
  "no_reactions = JObj [(updated_at_key, JNull), (by_target_key, JObj [])]"

subsection \<open>Record codec\<close>


text \<open>\<open>`KEY="${v}"`\<close>\<close>

definition quoted_var :: "string \<Rightarrow> jsstring \<Rightarrow> jsstring" where
  "quoted_var k v = str k @ str ''=\"'' @ v @ str ''\"''"

definition plain_var :: "string \<Rightarrow> jsstring \<Rightarrow> jsstring" where
  "plain_var k v = str k @ str ''='' @ v"


text \<open>
  \<open>if ((val.startsWith('"') && val.endsWith('"')) ||
  (val.startsWith("'") && val.endsWith("'"))) val = val.slice(1, -1)\<close>
\<close>

definition unquote :: "jsstring \<Rightarrow> jsstring" where
  "unquote val =
     (if val \<noteq> [] \<and> ((hd val = 34 \<and> last val = 34) \<or> (hd val = 39 \<and> last val = 39))
      then butlast (tl val) else val)"

text \<open>
  The \<open>REACTIONS_B64\<close> branch: \<open>JSON.parse(fromBase64(val) || '{}')\<close>, kept when it is
  an object or an array. \<open>JSON_parse\<close> is the built-in, \<open>None\<close> when it throws.
\<close>

definition is_object :: "json \<Rightarrow> bool" where
  "is_object v = (case v of JObj kvs \<Rightarrow> True | JArr xs \<Rightarrow> True | _ \<Rightarrow> False)"

definition parse_reactions :: "(jsstring \<Rightarrow> json option) \<Rightarrow> parsed \<Rightarrow> jsstring \<Rightarrow> parsed" where
  "parse_reactions JSON_parse out val =
     (let t = fromBase64 val
      in case JSON_parse (if t = [] then str ''{}'' else t) of
           None \<Rightarrow> out
         | Some obj \<Rightarrow> if is_object obj then out\<lparr>reactions := obj\<rparr> else out)"

text \<open>The body of the loop over the lines.\<close>

definition parse_line :: "(jsstring \<Rightarrow> json option) \<Rightarrow> parsed \<Rightarrow> jsstring \<Rightarrow> parsed" where
  "parse_line JSON_parse out raw =
     (let line = trim raw
      in if line = [] \<or> startsWith line (str ''#'') then out
         else
           (case indexOf line 61 of
              None \<Rightarrow> out
            | Some eq \<Rightarrow>
                let key = toUpperCase (trim (take eq line));
                    val = unquote (trim (drop (eq + 1) line))
                in if key = str ''TEAM'' then out\<lparr>team := val\<rparr>
                   else if key = str ''NAME'' then out\<lparr>name := val\<rparr>
                   else if key = str ''SESSION'' then out\<lparr>session := val\<rparr>
                   else if key = str ''FEELING''
                     then out\<lparr>feeling := number_or_null (Number val)\<rparr>
                   else if key = str ''PRODUCTIVITY''
                     then out\<lparr>productivity := number_or_null (Number val)\<rparr>
                   else if key = str ''UPDATED_AT'' then out\<lparr>updated_at := val\<rparr>
                   else if key = str ''UPDATE_B64'' then out\<lparr>update := fromBase64 val\<rparr>
                   else if key = str ''UPDATE'' then out\<lparr>update := val\<rparr>
                   else if key = str ''REACTIONS_B64'' then parse_reactions JSON_parse out val
                   else out))"

text \<open>
  The two lines after the loop. An array keeps no named property in this model; every
  reader of \<open>by_target\<close> falls back to \<open>{}\<close> by itself.
\<close>

definition default_reactions :: "json \<Rightarrow> json" where
  "default_reactions r =
     (let r1 = (if truthy r then r else no_reactions)
      in if truthy_opt (get_prop r1 by_target_key) then r1
         else (case r1 of JObj kvs \<Rightarrow> JObj (set_prop kvs by_target_key (JObj [])) | _ \<Rightarrow> r1))"

definition parseContentVars :: "(jsstring \<Rightarrow> json option) \<Rightarrow> jsstring \<Rightarrow> parsed" where
  "parseContentVars JSON_parse txt =
     (let out = foldl (parse_line JSON_parse) out_init (split_lines txt)
      in out\<lparr>reactions := default_reactions (reactions out)\<rparr>)"

text \<open>
  The key of a line, \<open>line.slice(0,eq).trim().toUpperCase()\<close>; \<open>None\<close> for a line the loop
  skips (blank, a comment, no equals sign).
\<close>

definition key_of :: "jsstring \<Rightarrow> jsstring option" where
  "key_of raw =
     (let line = trim raw
      in if line = [] \<or> startsWith line (str ''#'') then None
         else (case indexOf line 61 of
                 None \<Rightarrow> None
               | Some eq \<Rightarrow> Some (toUpperCase (trim (take eq line)))))"

text \<open>
  The value of a line, \<open>line.slice(eq+1).trim()\<close> with its quotes taken off; the empty
  string for a line with no equals sign.
\<close>

definition value_of :: "jsstring \<Rightarrow> jsstring" where
  "value_of raw =
     (let line = trim raw
      in case indexOf line 61 of
           None \<Rightarrow> []
         | Some eq \<Rightarrow> unquote (trim (drop (eq + 1) line)))"

text \<open>A key as \<open>buildContentVars\<close> writes it: capital letters, digits, underscores.\<close>

definition plain_key :: "jsstring \<Rightarrow> bool" where
  "plain_key k =
     (k \<noteq> [] \<and> list_all (\<lambda>c. (65 \<le> c \<and> c \<le> 90) \<or> c = 95 \<or> (48 \<le> c \<and> c \<le> 57)) k)"

text \<open>What the loop body does with a key and a value, after the key is cut off.\<close>

definition store_var :: "(jsstring \<Rightarrow> json option) \<Rightarrow> parsed \<Rightarrow> jsstring \<Rightarrow> jsstring \<Rightarrow> parsed" where
  "store_var JSON_parse out key val =
     (if key = str ''TEAM'' then out\<lparr>team := val\<rparr>
      else if key = str ''NAME'' then out\<lparr>name := val\<rparr>
      else if key = str ''SESSION'' then out\<lparr>session := val\<rparr>
      else if key = str ''FEELING'' then out\<lparr>feeling := number_or_null (Number val)\<rparr>
      else if key = str ''PRODUCTIVITY''
        then out\<lparr>productivity := number_or_null (Number val)\<rparr>
      else if key = str ''UPDATED_AT'' then out\<lparr>updated_at := val\<rparr>
      else if key = str ''UPDATE_B64'' then out\<lparr>update := fromBase64 val\<rparr>
      else if key = str ''UPDATE'' then out\<lparr>update := val\<rparr>
      else if key = str ''REACTIONS_B64'' then parse_reactions JSON_parse out val
      else out)"

subsection \<open>Reading and writing files of the store\<close>

text \<open>\<open>json.content.replace(/\n/g, '')\<close>\<close>

definition strip_newlines :: "jsstring \<Rightarrow> jsstring" where
  "strip_newlines c = filter (\<lambda>u. u \<noteq> 10) c"

text \<open>
  \<open>let text = ''; if (json?.content && json.encoding === 'base64')
  text = fromBase64(json.content.replace(/\n/g, ''))\<close>
\<close>

definition file_text :: "file_json \<Rightarrow> jsstring" where
  "file_text j =
     (case content j of
        None \<Rightarrow> []
      | Some c \<Rightarrow>
          if c \<noteq> [] \<and> encoding j = Some (str ''base64'')
          then fromBase64 (strip_newlines c) else [])"

text \<open>
  \<open>readFileContent\<close>, on the request path (the key of the cache), the cache and the
  store's answer; it returns the text or the error thrown, and the cache.
\<close>

definition readFileContent ::
  "jsstring \<Rightarrow> (jsstring \<rightharpoonup> file_entry) \<Rightarrow> file_json answer
     \<Rightarrow> (jserror + jsstring) \<times> (jsstring \<rightharpoonup> file_entry)" where
  "readFileContent path files ans =
     (case ans of
        Inl e \<Rightarrow> (Inl e, files)
      | Inr res \<Rightarrow>
          if status res = 304 then
            (Inr (case files path of None \<Rightarrow> [] | Some prev \<Rightarrow> etext prev), files)
          else if \<not> ok res then (Inl (JsError (status_message res) None), files)
          else
            (case bodyJson res of
               Inl e \<Rightarrow> (Inl e, files)
             | Inr j \<Rightarrow>
                 (Inr (file_text j),
                  files(path \<mapsto> \<lparr>etag = etagHeader res, etext = file_text j, esha = sha j\<rparr>))))"

text \<open>\<open>try { return JSON.parse(text || '{}'); } catch { return {}; }\<close>\<close>

definition parse_or_empty :: "(jsstring \<Rightarrow> json option) \<Rightarrow> jsstring \<Rightarrow> json" where
  "parse_or_empty JSON_parse t =
     (case JSON_parse (if t = [] then str ''{}'' else t) of None \<Rightarrow> JObj [] | Some v \<Rightarrow> v)"

text \<open>
  \<open>readJsonFile\<close>, the reader of the team registry: the same request and the same
  cache as \<open>readFileContent\<close>, and the text parsed as JSON.
\<close>

definition readJsonFile ::
  "(jsstring \<Rightarrow> json option) \<Rightarrow> jsstring \<Rightarrow> (jsstring \<rightharpoonup> file_entry) \<Rightarrow> file_json answer
     \<Rightarrow> (jserror + json) \<times> (jsstring \<rightharpoonup> file_entry)" where
  "readJsonFile JSON_parse path files ans =
     (case ans of
        Inl e \<Rightarrow> (Inl e, files)
      | Inr res \<Rightarrow>
          if status res = 304 then
            (Inr (parse_or_empty JSON_parse
                    (case files path of None \<Rightarrow> [] | Some prev \<Rightarrow> etext prev)), files)
          else if \<not> ok res then (Inl (JsError (status_message res) None), files)
          else
            (case bodyJson res of
               Inl e \<Rightarrow> (Inl e, files)
             | Inr j \<Rightarrow>
                 (Inr (parse_or_empty JSON_parse (file_text j)),
                  files(path \<mapsto> \<lparr>etag = etagHeader res, etext = file_text j, esha = sha j\<rparr>))))"

text \<open>The entry a read puts into the cache: \<open>{ etag, text, sha: json.sha }\<close>.\<close>

definition fetched_entry :: "file_json response \<Rightarrow> file_json \<Rightarrow> file_entry" where
  "fetched_entry res j = \<lparr>etag = etagHeader res, etext = file_text j, esha = sha j\<rparr>"

text \<open>
  A history of reads of files, each with its path and the store's answer. Every writer of
  \<open>state.cache.files\<close> is a read, by \<open>readFileContent\<close> or by \<open>readJsonFile\<close>, and the
  two treat the cache alike.
\<close>

definition read_all ::
  "(jsstring \<rightharpoonup> file_entry) \<Rightarrow> (jsstring \<times> file_json answer) list
     \<Rightarrow> (jsstring \<rightharpoonup> file_entry)" where
  "read_all files ops = foldl (\<lambda>f pa. snd (readFileContent (fst pa) f (snd pa))) files ops"

text \<open>
  \<open>ghGetContentsMeta\<close>: \<open>Inr None\<close> is the \<open>null\<close> of a 404; otherwise the \<open>sha\<close> of
  the object it returns.
\<close>

definition ghGetContentsMeta :: "file_json answer \<Rightarrow> jserror + jsstring option option" where
  "ghGetContentsMeta ans =
     (case ans of
        Inl e \<Rightarrow> Inl e
      | Inr res \<Rightarrow>
          if status res = 404 then Inr None
          else if \<not> ok res then Inl (JsError (status_message res) (Some (status res)))
          else (case bodyJson res of Inl e \<Rightarrow> Inl e | Inr j \<Rightarrow> Inr (Some (sha j))))"

text \<open>\<open>meta?.sha\<close>\<close>

definition meta_sha :: "jsstring option option \<Rightarrow> jsstring option" where
  "meta_sha meta = (case meta of None \<Rightarrow> None | Some x \<Rightarrow> x)"

text \<open>The inner \<open>put\<close> of \<open>writeFileOverwriteStrict\<close>, on the store's answer to the PUT.\<close>

definition put :: "'j answer \<Rightarrow> jserror + 'j" where
  "put ans =
     (case ans of
        Inl e \<Rightarrow> Inl e
      | Inr res \<Rightarrow>
          if status res = 200 \<or> status res = 201 then bodyJson res
          else Inl (JsError (status_message res) (Some (status res))))"

text \<open>
  The requests a write makes, in order. A PUT carries the \<open>sha\<close> it was given when that
  is truthy (\<open>if (sha) body.sha = sha\<close>), and none otherwise.
\<close>

datatype request = GetMeta | Put "jsstring option"

text \<open>
  \<open>e.status === 422 || /422/.test(msg) || /\"sha\" wasn't supplied|sha/i.test(msg)\<close>
\<close>

definition retry_on_422 :: "jserror \<Rightarrow> bool" where
  "retry_on_422 e =
     (estatus e = Some 422 \<or> includes_str (message e) (str ''422'')
      \<or> includes_ci (message e) (str ''\"sha\" wasn't supplied'')
      \<or> includes_ci (message e) (str ''sha''))"

text \<open>
  \<open>writeFileOverwriteStrict\<close>. \<open>m1\<close> and \<open>p1\<close> are the store's answers to the first
  GET and the first PUT, \<open>m2\<close> and \<open>p2\<close> to the second GET and the second PUT, used only
  when the code makes those requests. The result comes with the requests made.
\<close>

definition writeFileOverwriteStrict ::
  "file_json answer \<Rightarrow> 'j answer \<Rightarrow> file_json answer \<Rightarrow> 'j answer
     \<Rightarrow> (jserror + 'j) \<times> request list" where
  "writeFileOverwriteStrict m1 p1 m2 p2 =
     (case ghGetContentsMeta m1 of
        Inl e0 \<Rightarrow> (Inl e0, [GetMeta])
      | Inr meta \<Rightarrow>
          (case put p1 of
             Inr j \<Rightarrow> (Inr j, [GetMeta, Put (or_null (meta_sha meta))])
           | Inl e \<Rightarrow>
               if retry_on_422 e then
                 (case ghGetContentsMeta m2 of
                    Inl e2 \<Rightarrow> (Inl e2, [GetMeta, Put (or_null (meta_sha meta)), GetMeta])
                  | Inr meta2 \<Rightarrow>
                      (put p2,
                       [GetMeta, Put (or_null (meta_sha meta)), GetMeta,
                        Put (or_null (meta_sha meta2))]))
               else if estatus e = Some 409 then
                 (case ghGetContentsMeta m2 of
                    Inl e2 \<Rightarrow> (Inl e2, [GetMeta, Put (or_null (meta_sha meta)), GetMeta])
                  | Inr meta2 \<Rightarrow>
                      (case or_null (meta_sha meta2) of
                         Some s2 \<Rightarrow>
                           (put p2, [GetMeta, Put (or_null (meta_sha meta)), GetMeta, Put (Some s2)])
                       | None \<Rightarrow> (Inl e, [GetMeta, Put (or_null (meta_sha meta)), GetMeta])))
               else (Inl e, [GetMeta, Put (or_null (meta_sha meta))])))"

text \<open>Telling the PUTs among the requests made.\<close>

definition is_put :: "request \<Rightarrow> bool" where
  "is_put r = (case r of Put x \<Rightarrow> True | GetMeta \<Rightarrow> False)"

subsection \<open>Reactions: the aggregate, and the write into one's own file\<close>

record counts =
  thumbs :: nat
  checks :: nat
  hearts :: nat

definition emptyReactions :: counts where
  "emptyReactions = \<lparr>thumbs = 0, checks = 0, hearts = 0\<rparr>"

text \<open>The three emoji, as code units: U+1F44D, U+2705, U+2764 U+FE0F.\<close>

definition thumb_key :: jsstring where
  "thumb_key = [55357, 56397]"

definition check_key :: jsstring where
  "check_key = [9989]"

definition heart_key :: jsstring where
  "heart_key = [10084, 65039]"

text \<open>The \<open>TypeError\<close> of reading a property of \<open>null\<close>.\<close>

definition null_property_error :: jserror where
  "null_property_error = JsError (str ''Cannot read properties of null'') None"

text \<open>\<open>(u.reactions?.by_target) || {}\<close>\<close>

definition byTarget_of :: "parsed \<Rightarrow> json" where
  "byTarget_of u =
     (case get_prop (reactions u) by_target_key of
        None \<Rightarrow> JObj []
      | Some v \<Rightarrow> if truthy v then v else JObj [])"

text \<open>The body of the inner loop, for one \<open>[base, flags]\<close>.\<close>

definition count_entry ::
  "(jsstring \<rightharpoonup> counts) \<Rightarrow> jsstring \<times> json \<Rightarrow> jserror + (jsstring \<rightharpoonup> counts)" where
  "count_entry totals bf =
     (case snd bf of
        JNull \<Rightarrow> Inl null_property_error
      | flags \<Rightarrow>
          let entry = (case totals (fst bf) of None \<Rightarrow> emptyReactions | Some e \<Rightarrow> e);
              e1 = (if truthy_opt (get_prop flags thumb_key)
                    then entry\<lparr>thumbs := thumbs entry + 1\<rparr> else entry);
              e2 = (if truthy_opt (get_prop flags check_key)
                    then e1\<lparr>checks := checks e1 + 1\<rparr> else e1);
              e3 = (if truthy_opt (get_prop flags heart_key)
                    then e2\<lparr>hearts := hearts e2 + 1\<rparr> else e2)
          in Inr (totals(fst bf \<mapsto> e3)))"

fun count_entries ::
  "(jsstring \<rightharpoonup> counts) \<Rightarrow> (jsstring \<times> json) list \<Rightarrow> jserror + (jsstring \<rightharpoonup> counts)" where
  "count_entries totals [] = Inr totals"
| "count_entries totals (bf # bfs) =
     (case count_entry totals bf of
        Inl e \<Rightarrow> Inl e
      | Inr totals' \<Rightarrow> count_entries totals' bfs)"

fun aggregate_from ::
  "(jsstring \<rightharpoonup> counts) \<Rightarrow> parsed list \<Rightarrow> jserror + (jsstring \<rightharpoonup> counts)" where
  "aggregate_from totals [] = Inr totals"
| "aggregate_from totals (u # us) =
     (case count_entries totals (entries (byTarget_of u)) of
        Inl e \<Rightarrow> Inl e
      | Inr totals' \<Rightarrow> aggregate_from totals' us)"

definition aggregateReactions :: "parsed list \<Rightarrow> jserror + (jsstring \<rightharpoonup> counts)" where
  "aggregateReactions parsedList = aggregate_from Map.empty parsedList"

text \<open>
  What the aggregate is compared with: whether a record names a target, whether it marks
  an emoji for it, whether none of its flags is \<open>null\<close>, and whether it names each
  target once (as every object parsed from JSON does).
\<close>

definition names_target :: "parsed \<Rightarrow> jsstring \<Rightarrow> bool" where
  "names_target u t = list_ex (\<lambda>bf. fst bf = t) (entries (byTarget_of u))"

definition marks :: "parsed \<Rightarrow> jsstring \<Rightarrow> jsstring \<Rightarrow> bool" where
  "marks u t k =
     list_ex (\<lambda>bf. fst bf = t \<and> truthy_opt (get_prop (snd bf) k)) (entries (byTarget_of u))"

definition no_null_flags :: "parsed \<Rightarrow> bool" where
  "no_null_flags u = list_all (\<lambda>bf. snd bf \<noteq> JNull) (entries (byTarget_of u))"

definition distinct_targets :: "parsed \<Rightarrow> bool" where
  "distinct_targets u = distinct (map fst (entries (byTarget_of u)))"

text \<open>\<open>/^\s*REACTIONS_B64\s*=/.test(l)\<close>\<close>

definition is_reactions_line :: "jsstring \<Rightarrow> bool" where
  "is_reactions_line l =
     (let r = dropWhile white_space l
      in startsWith r (str ''REACTIONS_B64'')
         \<and> (let r2 = dropWhile white_space (drop 13 r) in r2 \<noteq> [] \<and> hd r2 = 61))"

fun findIndex :: "('a \<Rightarrow> bool) \<Rightarrow> 'a list \<Rightarrow> nat option" where
  "findIndex P [] = None"
| "findIndex P (x # xs) = (if P x then Some 0 else map_option Suc (findIndex P xs))"

text \<open>
  The text \<open>upsertMyReactions\<close> writes, from the text it read and the encoded payload:
  the first \<open>REACTIONS_B64\<close> line replaced, or a new line pushed, and the lines joined.
\<close>

definition reactions_lines :: "jsstring \<Rightarrow> jsstring \<Rightarrow> jsstring list" where
  "reactions_lines txt encoded =
     (let lines = split_lines txt;
          new = quoted_var ''REACTIONS_B64'' encoded
      in case findIndex is_reactions_line lines of
           Some idx \<Rightarrow> lines[idx := new]
         | None \<Rightarrow> lines @ [new])"

definition reactions_text :: "jsstring \<Rightarrow> jsstring \<Rightarrow> jsstring" where
  "reactions_text txt encoded = join_lines (reactions_lines txt encoded)"

text \<open>
  \<open>upsertMyReactions\<close> from the read on: \<open>try { text = await readFileContent(cfg,
  { path }); } catch { text = ''; }\<close>, then the new text, which goes to
  \<open>writeFileOverwriteStrict\<close>. It returns that text and the cache.
\<close>

definition upsertMyReactions ::
  "jsstring \<Rightarrow> (jsstring \<rightharpoonup> file_entry) \<Rightarrow> file_json answer \<Rightarrow> jsstring
     \<Rightarrow> jsstring \<times> (jsstring \<rightharpoonup> file_entry)" where
  "upsertMyReactions path files ans encoded =
     (case readFileContent path files ans of
        (Inl e, files') \<Rightarrow> (reactions_text [] encoded, files')
      | (Inr txt, files') \<Rightarrow> (reactions_text txt encoded, files'))"

subsection \<open>The polling cycle\<close>

text \<open>An item of a directory listing, and the JSON of a listing.\<close>

record item =
  iname :: jsstring
  ipath :: jsstring
  itype :: jsstring

datatype dir_json = Items "item list" | NotAnArray

text \<open>\<open>/\.txt$/i.test(name)\<close> and \<open>name.replace(/\.txt$/i, '')\<close>\<close>

definition is_txt :: "jsstring \<Rightarrow> bool" where
  "is_txt n = (4 \<le> length n \<and> map fold_ascii (drop (length n - 4) n) = str ''.TXT'')"

definition strip_txt :: "jsstring \<Rightarrow> jsstring" where
  "strip_txt n = (if is_txt n then take (length n - 4) n else n)"

text \<open>\<open>/\.json$/i.test(name)\<close>\<close>

definition is_json :: "jsstring \<Rightarrow> bool" where
  "is_json n = (5 \<le> length n \<and> map fold_ascii (drop (length n - 5) n) = str ''.JSON'')"

text \<open>
  \<open>listDirectory\<close>: every failure is caught and gives the empty list.
\<close>

definition listDirectory ::
  "jsstring \<Rightarrow> (jsstring \<rightharpoonup> dir_json dir_entry) \<Rightarrow> dir_json answer
     \<Rightarrow> item list \<times> (jsstring \<rightharpoonup> dir_json dir_entry)" where
  "listDirectory path dirs ans =
     (case ghGetJsonWithEtag path dirs ans of
        (Inl e, dirs') \<Rightarrow> ([], dirs')
      | (Inr r, dirs') \<Rightarrow>
          (filter (\<lambda>x. itype x = str ''file'' \<and> is_txt (iname x))
             (case rdata r of Some (Items xs) \<Rightarrow> xs | _ \<Rightarrow> []),
           dirs'))"

text \<open>
  \<open>listRegistry\<close>, the listing of the \<open>_teams\<close> directory: the same cache, another
  path, and the \<open>.json\<close> files kept.
\<close>

definition listRegistry ::
  "jsstring \<Rightarrow> (jsstring \<rightharpoonup> dir_json dir_entry) \<Rightarrow> dir_json answer
     \<Rightarrow> item list \<times> (jsstring \<rightharpoonup> dir_json dir_entry)" where
  "listRegistry path dirs ans =
     (case ghGetJsonWithEtag path dirs ans of
        (Inl e, dirs') \<Rightarrow> ([], dirs')
      | (Inr r, dirs') \<Rightarrow>
          (filter (\<lambda>x. itype x = str ''file'' \<and> is_json (iname x))
             (case rdata r of Some (Items xs) \<Rightarrow> xs | _ \<Rightarrow> []),
           dirs'))"

text \<open>
  The runtime state, as far as the cycle goes. \<open>timers\<close> are the pending polling
  timers, each with its handle and the delay it was set with; \<open>nextPollTimeout\<close> is the
  handle the code keeps, also after its timer has fired.
\<close>

record state =
  nextPollTimeout :: "nat option"
  timers :: "(nat \<times> jsnum) list"
  timerSeq :: nat
  isSyncing :: bool
  backoffMs :: nat
  lastApiError :: "jsstring option"
  dirCache :: "jsstring \<rightharpoonup> dir_json dir_entry"
  fileCache :: "jsstring \<rightharpoonup> file_entry"
  currentUpdates :: "parsed list"
  reactionTotals :: "jsstring \<rightharpoonup> counts"
  myReactions :: json

text \<open>
  What one cycle meets: the configuration it reads, the store's answers, and what it
  reads off the page. \<open>selected\<close> stands for the two filters on the file name (team and
  session), \<open>apiPath\<close> for the request path built for an item. \<open>registryPath\<close>,
  \<open>registryListing\<close> and \<open>fetchRegistry\<close> are the path of the team registry and the
  store's answers to its listing and to the reads of its files. \<open>tOk\<close> is the result of
  \<open>verifyPassForSelectedTeam\<close>, which reads the registry and the page.
\<close>

record cycle =
  pollIntervalMs :: jsnum
  dirPath :: jsstring
  listing :: "dir_json answer"
  tOk :: bool
  selected :: "item \<Rightarrow> bool"
  apiPath :: "item \<Rightarrow> jsstring"
  fetchFile :: "jsstring \<Rightarrow> file_json answer"
  jsonParse :: "jsstring \<Rightarrow> json option"
  myBase :: "jsstring option"
  listingAgain :: "dir_json answer"
  registryPath :: jsstring
  registryListing :: "dir_json answer"
  fetchRegistry :: "jsstring \<Rightarrow> file_json answer"

text \<open>
  The loop of \<open>discoverTeamsFromGitHub\<close> over the registry files:
  \<open>try { const obj = await readJsonFile(cfg, it.path); ... } catch {}\<close>. What it reads
  goes into the team registry, which decides \<open>tOk\<close>; what stays in this state is the cache.
\<close>

fun read_registry ::
  "cycle \<Rightarrow> (jsstring \<rightharpoonup> file_entry) \<Rightarrow> item list \<Rightarrow> (jsstring \<rightharpoonup> file_entry)" where
  "read_registry env files [] = files"
| "read_registry env files (it # its) =
     read_registry env
       (snd (readJsonFile (jsonParse env) (apiPath env it) files
               (fetchRegistry env (apiPath env it))))
       its"

text \<open>
  \<open>discoverTeamsFromGitHub\<close>, as far as the two caches go: it lists the registry and
  reads every file of it. It throws nothing.
\<close>

definition discoverTeamsFromGitHub ::
  "cycle \<Rightarrow> (jsstring \<rightharpoonup> dir_json dir_entry) \<Rightarrow> (jsstring \<rightharpoonup> file_entry)
     \<Rightarrow> (jsstring \<rightharpoonup> dir_json dir_entry) \<times> (jsstring \<rightharpoonup> file_entry)" where
  "discoverTeamsFromGitHub env dirs files =
     (case listRegistry (registryPath env) dirs (registryListing env) of
        (regItems, dirs') \<Rightarrow> (dirs', read_registry env files regItems))"

text \<open>The loop \<open>for (const it of sessionFiles)\<close>: a failed read leaves the loop.\<close>

fun read_files ::
  "cycle \<Rightarrow> (jsstring \<rightharpoonup> file_entry) \<Rightarrow> item list
     \<Rightarrow> (jserror + parsed list) \<times> (jsstring \<rightharpoonup> file_entry)" where
  "read_files env files [] = (Inr [], files)"
| "read_files env files (it # its) =
     (case readFileContent (apiPath env it) files (fetchFile env (apiPath env it)) of
        (Inl e, files') \<Rightarrow> (Inl e, files')
      | (Inr txt, files') \<Rightarrow>
          (let meta = (parseContentVars (jsonParse env) txt)
                        \<lparr>txtPath := ipath it, base := strip_txt (iname it)\<rparr>
           in case read_files env files' its of
                (Inl e, files'') \<Rightarrow> (Inl e, files'')
              | (Inr ps, files'') \<Rightarrow> (Inr (meta # ps), files'')))"

text \<open>\<open>me?.reactions || { updated_at: null, by_target: {} }\<close>\<close>

definition my_reactions :: "jsstring option \<Rightarrow> parsed list \<Rightarrow> json" where
  "my_reactions b ps =
     (case b of
        None \<Rightarrow> no_reactions
      | Some mb \<Rightarrow>
          (case filter (\<lambda>u. base u = mb) ps of
             [] \<Rightarrow> no_reactions
           | me # _ \<Rightarrow> if truthy (reactions me) then reactions me else no_reactions))"

text \<open>How the \<open>try\<close> block ends.\<close>

datatype outcome = Updated | Locked | Thrown jserror

text \<open>
  The \<open>try\<close> block of \<open>refreshBoard\<close>: the listing, \<open>discoverTeamsFromGitHub\<close>, the
  passphrase check, the reads of the files, the aggregate. Both ways out without an error
  set the backoff to 0 and end with \<open>populateDeleteSessionSelect\<close>, which lists the
  directory again.
\<close>

definition cycle_body :: "cycle \<Rightarrow> state \<Rightarrow> outcome \<times> state" where
  "cycle_body env s =
     (case listDirectory (dirPath env) (dirCache s) (listing env) of
        (list, dirs0) \<Rightarrow>
          (case discoverTeamsFromGitHub env dirs0 (fileCache s) of
             (dirs, files0) \<Rightarrow>
               if \<not> tOk env then
                 (Locked,
                  s\<lparr>currentUpdates := [], reactionTotals := Map.empty, backoffMs := 0,
                    fileCache := files0,
                    dirCache := snd (listDirectory (dirPath env) dirs (listingAgain env))\<rparr>)
               else
                 (case read_files env files0 (filter (selected env) list) of
                    (Inl e, files) \<Rightarrow> (Thrown e, s\<lparr>dirCache := dirs, fileCache := files\<rparr>)
                  | (Inr ps, files) \<Rightarrow>
                      (case aggregateReactions ps of
                         Inl e \<Rightarrow>
                           (Thrown e,
                            s\<lparr>dirCache := dirs, fileCache := files, currentUpdates := ps\<rparr>)
                       | Inr totals \<Rightarrow>
                           (Updated,
                            s\<lparr>fileCache := files, currentUpdates := ps, reactionTotals := totals,
                              myReactions := my_reactions (myBase env) ps, backoffMs := 0,
                              dirCache :=
                                snd (listDirectory (dirPath env) dirs (listingAgain env))\<rparr>)))))"

text \<open>\<open>/^403\b|^429\b|rate limit/i.test(msg)\<close>\<close>

definition starts_with_code :: "jsstring \<Rightarrow> jsstring \<Rightarrow> bool" where
  "starts_with_code msg code =
     (startsWith msg code \<and> (length msg = length code \<or> \<not> word_char (msg ! length code)))"

definition rate_limited :: "jsstring \<Rightarrow> bool" where
  "rate_limited msg =
     (starts_with_code msg (str ''403'') \<or> starts_with_code msg (str ''429'')
      \<or> includes_ci msg (str ''rate limit''))"

text \<open>
  The \<open>catch\<close> block: \<open>state.backoffMs = state.backoffMs ?
  Math.min(state.backoffMs * 2, 60000) : 5000\<close> when the message is of the rate-limit
  class.
\<close>

definition on_error :: "jserror \<Rightarrow> state \<Rightarrow> state" where
  "on_error e s =
     (let s1 = s\<lparr>lastApiError := Some (message e)\<rparr>
      in if rate_limited (message e)
         then s1\<lparr>backoffMs := (if backoffMs s \<noteq> 0 then min (backoffMs s * 2) 60000 else 5000)\<rparr>
         else s1)"

text \<open>\<open>Math.max(2000, Number(cfg.POLL_INTERVAL_MS) || 10000)\<close>\<close>

definition poll_base :: "jsnum \<Rightarrow> jsnum" where
  "poll_base x =
     (case x of
        NaN \<Rightarrow> Fin 10000
      | PosInf \<Rightarrow> PosInf
      | NegInf \<Rightarrow> Fin 2000
      | Fin q \<Rightarrow> if q = 0 then Fin 10000 else Fin (max 2000 q))"

text \<open>\<open>base + (state.backoffMs || 0)\<close>\<close>

definition plus_ms :: "jsnum \<Rightarrow> nat \<Rightarrow> jsnum" where
  "plus_ms x n = (case x of Fin q \<Rightarrow> Fin (q + of_nat n) | y \<Rightarrow> y)"

definition clearTimeout :: "nat \<Rightarrow> state \<Rightarrow> state" where
  "clearTimeout h s = s\<lparr>timers := filter (\<lambda>t. fst t \<noteq> h) (timers s)\<rparr>"

text \<open>
  \<open>scheduleNextPoll\<close>: the timer of the kept handle is cleared, then a new one is set
  and its handle kept.
\<close>

definition scheduleNextPoll :: "jsnum \<Rightarrow> state \<Rightarrow> state" where
  "scheduleNextPoll poll s =
     (let wait = plus_ms (poll_base poll) (backoffMs s);
          s1 = (case nextPollTimeout s of None \<Rightarrow> s | Some h \<Rightarrow> clearTimeout h s);
          h' = Suc (timerSeq s1)
      in s1\<lparr>timers := timers s1 @ [(h', wait)], timerSeq := h', nextPollTimeout := Some h'\<rparr>)"

text \<open>The \<open>catch\<close> and the \<open>finally\<close> of \<open>refreshBoard\<close>.\<close>

definition cycle_end :: "jsnum \<Rightarrow> outcome \<times> state \<Rightarrow> state" where
  "cycle_end poll os =
     (let s1 = (case fst os of Thrown e \<Rightarrow> on_error e (snd os) | _ \<Rightarrow> snd os)
      in scheduleNextPoll poll (s1\<lparr>isSyncing := False\<rparr>))"

text \<open>
  \<open>refreshBoard\<close>, run from its call to its end with nothing in between.
\<close>

definition refreshBoard :: "cycle \<Rightarrow> state \<Rightarrow> state" where
  "refreshBoard env s =
     (if isSyncing s then s
      else cycle_end (pollIntervalMs env) (cycle_body env (s\<lparr>isSyncing := True\<rparr>)))"

text \<open>
  \<open>refreshBoard\<close> is asynchronous: while a cycle waits for the store, timers and clicks
  call \<open>refreshBoard\<close> again. \<open>inflight\<close> counts the cycles that have passed the guard and
  not yet run their \<open>finally\<close>. \<open>Invoke\<close> is a call of \<open>refreshBoard\<close> (from a click, from
  \<open>init\<close>, or after a write); \<open>TimerFires\<close> is the first pending polling timer firing,
  which calls \<open>refreshBoard\<close>; \<open>Completes env\<close> is the cycle in flight running to its end.
\<close>

record engine =
  st :: state
  inflight :: nat

datatype event = Invoke | TimerFires | Completes cycle

definition invoke :: "engine \<Rightarrow> engine" where
  "invoke g =
     (if isSyncing (st g) then g
      else g\<lparr>st := (st g)\<lparr>isSyncing := True\<rparr>, inflight := Suc (inflight g)\<rparr>)"

fun step :: "engine \<Rightarrow> event \<Rightarrow> engine" where
  "step g Invoke = invoke g"
| "step g TimerFires =
     (case timers (st g) of
        [] \<Rightarrow> g
      | t # ts \<Rightarrow> invoke (g\<lparr>st := (st g)\<lparr>timers := ts\<rparr>\<rparr>))"
| "step g (Completes env) =
     (if inflight g = 0 then g
      else g\<lparr>st := cycle_end (pollIntervalMs env) (cycle_body env (st g)),
             inflight := inflight g - 1\<rparr>)"

definition run :: "engine \<Rightarrow> event list \<Rightarrow> engine" where
  "run g es = foldl step g es"

text \<open>The polling timers: those pending carry the kept handle, and there is at most one.\<close>

definition kept_handle_only :: "state \<Rightarrow> bool" where
  "kept_handle_only s =
     (length (timers s) \<le> 1 \<and> list_all (\<lambda>t. Some (fst t) = nextPollTimeout s) (timers s))"

text \<open>The state the page starts with.\<close>

definition initial_state :: state where
  "initial_state =
     \<lparr>nextPollTimeout = None, timers = [], timerSeq = 0, isSyncing = False, backoffMs = 0,
      lastApiError = None, dirCache = Map.empty, fileCache = Map.empty, currentUpdates = [],
      reactionTotals = Map.empty, myReactions = no_reactions\<rparr>"

definition initial_engine :: engine where
  "initial_engine = \<lparr>st = initial_state, inflight = 0\<rparr>"

subsection \<open>Speaker order\<close>

record speaker =
  spoken :: "jsstring list"
  speakingNow :: "jsstring option"
  readyOrder :: "jsstring list"

text \<open>\<open>[arr[i], arr[j]] = [arr[j], arr[i]]\<close>\<close>

definition swap :: "nat \<Rightarrow> nat \<Rightarrow> 'a list \<Rightarrow> 'a list" where
  "swap i j arr = arr[i := arr ! j, j := arr ! i]"

text \<open>
  \<open>shuffle\<close>: \<open>for (let i = arr.length - 1; i > 0; i--)\<close>, with
  \<open>j = Math.floor(Math.random() * (i + 1))\<close>. \<open>rnd k\<close> is the value of the \<open>k\<close>-th call
  of \<open>Math.random\<close>, a number in \<open>[0, 1)\<close>, so that \<open>j \<le> i\<close>.
\<close>

fun shuffle_from :: "(nat \<Rightarrow> rat) \<Rightarrow> nat \<Rightarrow> nat \<Rightarrow> 'a list \<Rightarrow> 'a list" where
  "shuffle_from rnd k 0 arr = arr"
| "shuffle_from rnd k (Suc i) arr =
     (let j = nat \<lfloor>rnd k * of_nat (Suc i + 1)\<rfloor>
      in shuffle_from rnd (Suc k) i (swap (Suc i) j arr))"

definition shuffle :: "(nat \<Rightarrow> rat) \<Rightarrow> 'a list \<Rightarrow> 'a list" where
  "shuffle rnd arr = shuffle_from rnd 0 (length arr - 1) arr"

definition first_of :: "'a list \<Rightarrow> 'a option" where
  "first_of xs = (case xs of [] \<Rightarrow> None | x # _ \<Rightarrow> Some x)"

text \<open>
  \<open>nextSpeaker\<close>, on the current updates and the speaker state; the result is the state
  that is saved (unchanged where the function returns early).
\<close>

definition nextSpeaker :: "(nat \<Rightarrow> rat) \<Rightarrow> parsed list \<Rightarrow> speaker \<Rightarrow> speaker" where
  "nextSpeaker rnd updates s =
     (if updates = [] then s
      else
        let ready = filter (\<lambda>n. n \<notin> set (spoken s)) (map name updates)
        in if ready = [] then s\<lparr>speakingNow := None, readyOrder := []\<rparr>
           else
             let order = shuffle rnd ready
             in s\<lparr>readyOrder := order, speakingNow := or_null (first_of order)\<rparr>)"

text \<open>\<open>speakerFinished\<close>\<close>

definition speakerFinished :: "speaker \<Rightarrow> speaker" where
  "speakerFinished s =
     (case or_null (speakingNow s) of
        None \<Rightarrow> s
      | Some w \<Rightarrow>
          s\<lparr>spoken := (if w \<in> set (spoken s) then spoken s else spoken s @ [w]),
            readyOrder := filter (\<lambda>n. n \<noteq> w) (readyOrder s),
            speakingNow := None\<rparr>)"

subsection \<open>Sample values\<close>

definition half :: "nat \<Rightarrow> rat" where
  "half k = 1 / 2"

definition abc_updates :: "parsed list" where
  "abc_updates =
     [out_init\<lparr>name := str ''A''\<rparr>, out_init\<lparr>name := str ''B''\<rparr>,
      out_init\<lparr>name := str ''C''\<rparr>]"

definition nobody_spoke :: speaker where
  "nobody_spoke = \<lparr>spoken = [], speakingNow = None, readyOrder = []\<rparr>"

definition a_speaking :: speaker where
  "a_speaking = \<lparr>spoken = [str ''B''], speakingNow = Some (str ''A''), readyOrder = [str ''A'']\<rparr>"

definition cached_files :: "jsstring \<rightharpoonup> file_entry" where
  "cached_files =
     [str ''/a.txt'' \<mapsto>
        \<lparr>etag = Some (str ''W1''), etext = str ''TEAM=x'', esha = Some (str ''s1'')\<rparr>]"

definition no_json :: jserror where
  "no_json = JsError (str ''Unexpected end of JSON input'') None"

definition not_modified :: "file_json response" where
  "not_modified =
     \<lparr>status = 304, statusText = str ''Not Modified'', etagHeader = Some (str ''W1''),
      bodyText = [], bodyJson = Inl no_json\<rparr>"

definition name_y_json :: file_json where
  "name_y_json =
     \<lparr>sha = Some (str ''s2''), content = Some (str ''TkFNRT15'' @ [10]),
      encoding = Some (str ''base64'')\<rparr>"

definition fresh_file :: "file_json response" where
  "fresh_file =
     \<lparr>status = 200, statusText = str ''OK'', etagHeader = Some (str ''W2''),
      bodyText = [], bodyJson = Inr name_y_json\<rparr>"

definition found_s1 :: "file_json response" where
  "found_s1 =
     \<lparr>status = 200, statusText = str ''OK'', etagHeader = None, bodyText = [],
      bodyJson = Inr \<lparr>sha = Some (str ''s1''), content = None, encoding = None\<rparr>\<rparr>"

definition found_s2 :: "file_json response" where
  "found_s2 =
     \<lparr>status = 200, statusText = str ''OK'', etagHeader = None, bodyText = [],
      bodyJson = Inr \<lparr>sha = Some (str ''s2''), content = None, encoding = None\<rparr>\<rparr>"

definition not_found :: "file_json response" where
  "not_found =
     \<lparr>status = 404, statusText = str ''Not Found'', etagHeader = None, bodyText = [],
      bodyJson = Inl no_json\<rparr>"

definition conflict :: "unit response" where
  "conflict =
     \<lparr>status = 409, statusText = str ''Conflict'', etagHeader = None,
      bodyText = str ''x.txt does not match'', bodyJson = Inl no_json\<rparr>"

definition written :: "unit response" where
  "written =
     \<lparr>status = 200, statusText = str ''OK'', etagHeader = None, bodyText = [],
      bodyJson = Inr ()\<rparr>"

definition offline :: jserror where
  "offline = JsError (str ''Failed to fetch'') None"

definition file_x :: item where
  "file_x = \<lparr>iname = str ''T -- A -- S.txt'', ipath = str ''d/T -- A -- S.txt'', itype = str ''file''\<rparr>"

definition listing_x :: "dir_json response" where
  "listing_x =
     \<lparr>status = 200, statusText = str ''OK'', etagHeader = None, bodyText = [],
      bodyJson = Inr (Items [file_x])\<rparr>"

definition answer_with :: "nat \<Rightarrow> string \<Rightarrow> file_json response" where
  "answer_with code reason =
     \<lparr>status = code, statusText = str reason, etagHeader = None, bodyText = [],
      bodyJson = Inl no_json\<rparr>"

definition never_parses :: "jsstring \<Rightarrow> json option" where
  "never_parses s = None"

definition any_item :: "item \<Rightarrow> bool" where
  "any_item x = True"

definition answering :: "file_json answer \<Rightarrow> jsstring \<Rightarrow> file_json answer" where
  "answering a p = a"

text \<open>
  A cycle over one file, whose read the store answers with \<open>a\<close>; the listing of the
  team registry fails, so there is no registry file to read.
\<close>

definition cycle_with :: "jsnum \<Rightarrow> bool \<Rightarrow> file_json answer \<Rightarrow> cycle" where
  "cycle_with poll pass a =
     \<lparr>pollIntervalMs = poll, dirPath = str ''/d'', listing = Inr listing_x, tOk = pass,
      selected = any_item, apiPath = ipath, fetchFile = answering a,
      jsonParse = never_parses, myBase = None, listingAgain = Inr listing_x,
      registryPath = str ''/d/_teams'', registryListing = Inl offline,
      fetchRegistry = answering (Inl offline)\<rparr>"

definition forbidden_cycle :: cycle where
  "forbidden_cycle = cycle_with (Fin 10000) True (Inr (answer_with 403 ''Forbidden''))"

definition failing_cycle :: cycle where
  "failing_cycle = cycle_with (Fin 10000) True (Inr (answer_with 500 ''Internal Server Error''))"

definition locked_cycle :: cycle where
  "locked_cycle = cycle_with (Fin 500) False (Inl offline)"

definition backed_off :: state where
  "backed_off = initial_state\<lparr>backoffMs := 5000\<rparr>"

definition syncing :: state where
  "syncing = initial_state\<lparr>isSyncing := True\<rparr>"

text \<open>
  A stand-in for \<open>JSON.parse\<close> that knows one text, \<open>{"by_target":{"T":null}}\<close>, and
  a record body whose \<open>REACTIONS_B64\<close> line carries that text.
\<close>

definition null_flags_json :: json where
  "null_flags_json = JObj [(by_target_key, JObj [(str ''T'', JNull)])]"

definition parses_null_flags :: "jsstring \<Rightarrow> json option" where
  "parses_null_flags s =
     (if s = str ''{\"by_target\":{\"T\":null}}'' then Some null_flags_json else None)"

definition null_flags_body :: jsstring where
  "null_flags_body = str ''REACTIONS_B64=\"eyJieV90YXJnZXQiOnsiVCI6bnVsbH19\"''"

definition thumbs_up_for :: "string \<Rightarrow> parsed" where
  "thumbs_up_for t =
     out_init\<lparr>reactions :=
       JObj [(updated_at_key, JNull),
             (by_target_key, JObj [(str t, JObj [(thumb_key, JBool True)])])]\<rparr>"

definition three_lines :: jsstring where
  "three_lines =
     str ''TEAM=\"x\"'' @ [10] @ str ''REACTIONS_B64=\"b2xk\"'' @ [10] @ str ''NAME=\"y\"''"

text \<open>A listing the store refuses with 403, and a cycle that meets it twice.\<close>

definition throttled_listing :: "dir_json response" where
  "throttled_listing =
     \<lparr>status = 403, statusText = str ''Forbidden'', etagHeader = None,
      bodyText = str ''API rate limit exceeded'', bodyJson = Inl no_json\<rparr>"

definition throttled_cycle :: cycle where
  "throttled_cycle =
     (cycle_with (Fin 10000) True (Inl offline))
       \<lparr>listing := Inr throttled_listing, listingAgain := Inr throttled_listing\<rparr>"

text \<open>The engine at rest with one file in its cache.\<close>

definition cached_engine :: engine where
  "cached_engine = \<lparr>st = initial_state\<lparr>fileCache := cached_files\<rparr>, inflight = 0\<rparr>"







section \<open>Properties\<close>

subsection \<open>Speaker order\<close>

lemma mset_swap_list:
  "i < length arr \<Longrightarrow> j < length arr \<Longrightarrow> mset (swap i j arr) = mset arr"
  unfolding swap_def by (metis mset_swap)

lemma length_swap_list: "length (swap i j arr) = length arr"
  by (simp add: swap_def)

lemma random_index_le:
  assumes "0 \<le> r" and "r < 1"
  shows "nat \<lfloor>r * of_nat (Suc i + 1)\<rfloor> \<le> Suc i"
proof -
  have "r * of_nat (Suc i + 1) < of_nat (Suc i + 1)"
    using assms by (simp add: mult_less_cancel_right2 del: of_nat_Suc of_nat_add)
  then have "\<lfloor>r * of_nat (Suc i + 1)\<rfloor> < int (Suc i + 1)"
    by (simp add: floor_less_iff del: of_nat_Suc of_nat_add)
  then show ?thesis by linarith
qed

lemma mset_shuffle_from:
  "\<forall>k. 0 \<le> rnd k \<and> rnd k < 1 \<Longrightarrow> i < length arr \<Longrightarrow>
     mset (shuffle_from rnd k i arr) = mset arr"
proof (induction i arbitrary: k arr)
  case 0
  then show ?case by simp
next
  case (Suc i)
  let ?j = "nat \<lfloor>rnd k * of_nat (Suc i + 1)\<rfloor>"
  have j: "?j \<le> Suc i"
    using Suc.prems(1) by (intro random_index_le) auto
  have "mset (swap (Suc i) ?j arr) = mset arr"
    using Suc.prems(2) j by (intro mset_swap_list) auto
  moreover have "i < length (swap (Suc i) ?j arr)"
    using Suc.prems(2) by (simp add: length_swap_list)
  ultimately show ?case
    using Suc.IH [OF Suc.prems(1), of "swap (Suc i) ?j arr" "Suc k"]
    by (simp add: Let_def del: of_nat_Suc of_nat_add)
qed

lemma mset_shuffle:
  assumes "\<forall>k. 0 \<le> rnd k \<and> rnd k < 1"
  shows "mset (shuffle rnd arr) = mset arr"
proof (cases arr)
  case Nil
  then show ?thesis by (simp add: shuffle_def)
next
  case (Cons a as)
  then have "length arr - 1 < length arr" by simp
  then show ?thesis
    unfolding shuffle_def using assms by (intro mset_shuffle_from) auto
qed

lemma nextSpeaker_fresh:
  assumes rnd: "\<forall>k. 0 \<le> rnd k \<and> rnd k < 1"
    and ne: "updates \<noteq> []" and sp: "spoken s = []"
  shows "mset (readyOrder (nextSpeaker rnd updates s)) = mset (map name updates)"
    and "speakingNow (nextSpeaker rnd updates s) =
           or_null (first_of (shuffle rnd (map name updates)))"
    and "spoken (nextSpeaker rnd updates s) = []"
  using ne sp mset_shuffle [OF rnd, of "map name updates"]
  by (simp_all add: nextSpeaker_def Let_def)

lemma first_of_shuffle:
  assumes rnd: "\<forall>k. 0 \<le> rnd k \<and> rnd k < 1" and ne: "ns \<noteq> []"
  shows "\<exists>w. first_of (shuffle rnd ns) = Some w \<and> w \<in> set ns"
proof -
  have m: "mset (shuffle rnd ns) = mset ns" by (rule mset_shuffle [OF rnd])
  then have "shuffle rnd ns \<noteq> []" using ne by auto
  then obtain w ws where ws: "shuffle rnd ns = w # ws" by (cases "shuffle rnd ns") auto
  then have "w \<in> set (shuffle rnd ns)" by simp
  then have "w \<in> set ns" using m by (metis mset_eq_setD)
  then show ?thesis using ws by (simp add: first_of_def)
qed

lemma speakerFinished_twice: "speakerFinished (speakerFinished s) = speakerFinished s"
  by (simp add: speakerFinished_def or_null_def split: option.splits)

text \<open>
  C9, as the code has it. With a roster that is not empty, whose names are distinct and
  none of them empty, and nobody spoken yet: \<open>nextSpeaker\<close> makes one name of the roster
  the speaker and \<open>readyOrder\<close> a permutation of the roster's names, each once;
  \<open>speakerFinished\<close> then leaves exactly that name in \<open>spoken\<close>, clears the speaker, and a
  second call in a row changes nothing. With a roster that is not empty and all of whose
  names have spoken, \<open>nextSpeaker\<close> clears the speaker and the ready order. With an empty
  roster \<open>nextSpeaker\<close> returns at its first guard and changes nothing.
\<close>

theorem speaker_queue_advance_finish:
  assumes rnd: "\<forall>k. 0 \<le> rnd k \<and> rnd k < 1"
    and ne: "updates \<noteq> []"
    and dist: "distinct (map name updates)"
    and named: "[] \<notin> set (map name updates)"
  shows "(spoken s = [] \<longrightarrow>
            (\<exists>w. w \<in> set (map name updates)
               \<and> speakingNow (nextSpeaker rnd updates s) = Some w
               \<and> spoken (speakerFinished (nextSpeaker rnd updates s)) = [w])
          \<and> distinct (readyOrder (nextSpeaker rnd updates s))
          \<and> set (readyOrder (nextSpeaker rnd updates s)) = set (map name updates)
          \<and> speakingNow (speakerFinished (nextSpeaker rnd updates s)) = None
          \<and> speakerFinished (speakerFinished (nextSpeaker rnd updates s))
              = speakerFinished (nextSpeaker rnd updates s))
       \<and> (set (map name updates) \<subseteq> set (spoken s) \<longrightarrow>
            speakingNow (nextSpeaker rnd updates s) = None
          \<and> readyOrder (nextSpeaker rnd updates s) = [])
       \<and> nextSpeaker rnd [] s = s"
proof (intro conjI impI)
  assume sp: "spoken s = []"
  let ?s1 = "nextSpeaker rnd updates s"
  have names_ne: "map name updates \<noteq> []" using ne by simp
  obtain w where w: "first_of (shuffle rnd (map name updates)) = Some w"
      "w \<in> set (map name updates)"
    using first_of_shuffle [OF rnd names_ne] by blast
  have "w \<noteq> []" using w(2) named by metis
  then have now: "speakingNow ?s1 = Some w"
    using nextSpeaker_fresh(2) [OF rnd ne sp] w(1) by (simp add: or_null_def)
  have "spoken (speakerFinished ?s1) = [w]"
    using now nextSpeaker_fresh(3) [OF rnd ne sp] \<open>w \<noteq> []\<close>
    by (simp add: speakerFinished_def or_null_def)
  then show "\<exists>w. w \<in> set (map name updates) \<and> speakingNow ?s1 = Some w
      \<and> spoken (speakerFinished ?s1) = [w]"
    using w(2) now by blast
  have m: "mset (readyOrder ?s1) = mset (map name updates)"
    by (rule nextSpeaker_fresh(1) [OF rnd ne sp])
  show "distinct (readyOrder ?s1)"
    using m dist by (metis mset_eq_imp_distinct_iff)
  show "set (readyOrder ?s1) = set (map name updates)"
    using m by (rule mset_eq_setD)
  show "speakingNow (speakerFinished ?s1) = None"
    using now \<open>w \<noteq> []\<close> by (simp add: speakerFinished_def or_null_def)
  show "speakerFinished (speakerFinished ?s1) = speakerFinished ?s1"
    by (rule speakerFinished_twice)
next
  assume all: "set (map name updates) \<subseteq> set (spoken s)"
  then have "filter (\<lambda>n. n \<notin> set (spoken s)) (map name updates) = []"
    by (auto simp: filter_empty_conv)
  then show "speakingNow (nextSpeaker rnd updates s) = None"
    and "readyOrder (nextSpeaker rnd updates s) = []"
    using ne by (simp_all add: nextSpeaker_def)
next
  show "nextSpeaker rnd [] s = s" by (simp add: nextSpeaker_def)
qed

theorem speaker_queue_advance_finish_witness:
  "abc_updates \<noteq> [] \<and> distinct (map name abc_updates) \<and> [] \<notin> set (map name abc_updates)
   \<and> spoken nobody_spoke = []
   \<and> nextSpeaker half abc_updates nobody_spoke
       = \<lparr>spoken = [], speakingNow = Some (str ''A''),
          readyOrder = [str ''A'', str ''C'', str ''B'']\<rparr>
   \<and> (\<exists>w. w \<in> set (map name abc_updates)
         \<and> speakingNow (nextSpeaker half abc_updates nobody_spoke) = Some w
         \<and> spoken (speakerFinished (nextSpeaker half abc_updates nobody_spoke)) = [w])
   \<and> set (readyOrder (nextSpeaker half abc_updates nobody_spoke)) = set (map name abc_updates)
   \<and> speakerFinished (speakerFinished (nextSpeaker half abc_updates nobody_spoke))
       = \<lparr>spoken = [str ''A''], speakingNow = None, readyOrder = [str ''C'', str ''B'']\<rparr>"
proof -
  have r: "\<forall>k. 0 \<le> half k \<and> half k < 1" by (simp add: half_def)
  have n: "abc_updates \<noteq> []" by (simp add: abc_updates_def)
  have d: "distinct (map name abc_updates)"
    by (simp add: abc_updates_def out_init_def str_def)
  have e: "[] \<notin> set (map name abc_updates)"
    by (simp add: abc_updates_def out_init_def str_def)
  have s: "spoken nobody_spoke = []" by (simp add: nobody_spoke_def)
  have v: "nextSpeaker half abc_updates nobody_spoke
       = \<lparr>spoken = [], speakingNow = Some (str ''A''),
          readyOrder = [str ''A'', str ''C'', str ''B'']\<rparr>"
    by code_simp
  have f: "speakerFinished (speakerFinished (nextSpeaker half abc_updates nobody_spoke))
       = \<lparr>spoken = [str ''A''], speakingNow = None, readyOrder = [str ''C'', str ''B'']\<rparr>"
    by code_simp
  from speaker_queue_advance_finish [OF r n d e, of nobody_spoke] s
  have "(\<exists>w. w \<in> set (map name abc_updates)
         \<and> speakingNow (nextSpeaker half abc_updates nobody_spoke) = Some w
         \<and> spoken (speakerFinished (nextSpeaker half abc_updates nobody_spoke)) = [w])"
    and "set (readyOrder (nextSpeaker half abc_updates nobody_spoke)) = set (map name abc_updates)"
    by blast+
  with n d e s v f show ?thesis by blast
qed

text \<open>
  C9 as it is written fails in two places. With an empty roster no writer remains
  un-spoken, yet \<open>nextSpeaker\<close> leaves the speaker and the ready order as they were. And a
  record without a \<open>NAME\<close> line is a ready writer whose name is the empty string:
  \<open>order[0] || null\<close> then leaves nobody speaking.
\<close>

theorem speaker_queue_counterexample:
  "set (map name []) \<subseteq> set (spoken a_speaking)
   \<and> speakingNow (nextSpeaker half [] a_speaking) = Some (str ''A'')
   \<and> readyOrder (nextSpeaker half [] a_speaking) = [str ''A'']
   \<and> set (map name [out_init]) \<noteq> {}
   \<and> speakingNow (nextSpeaker half [out_init] nobody_spoke) = None"
  by (simp add: nextSpeaker_def a_speaking_def nobody_spoke_def out_init_def shuffle_def
      or_null_def first_of_def)

subsection \<open>The optimistic write\<close>

text \<open>
  C3, as the code has it. \<open>writeFileOverwriteStrict\<close> first fetches the current version;
  when that fetch throws, its error goes to the caller and nothing is written. Otherwise
  it writes with the version found (none when the file is absent). When that PUT throws
  with status 422 (or with a message that holds \<open>422\<close> or \<open>sha\<close>) or with status 409, it
  fetches the version once more. When this second fetch throws, its error goes to the
  caller. When it finds a version, the write is tried once more with it. When it finds
  none, the write is tried once more as a creation on the 422 side, and on the 409 side
  the first error goes to the caller with no second PUT. The result of a second PUT is
  the result of the call. No call makes more than two GETs or more than two PUTs.
\<close>

theorem write_retries_at_most_once:
  "(\<forall>e0. ghGetContentsMeta m1 = Inl e0 \<longrightarrow>
        writeFileOverwriteStrict m1 p1 m2 p2 = (Inl e0, [GetMeta]))
   \<and> (\<forall>meta j. ghGetContentsMeta m1 = Inr meta \<and> put p1 = Inr j \<longrightarrow>
        writeFileOverwriteStrict m1 p1 m2 p2
          = (Inr j, [GetMeta, Put (or_null (meta_sha meta))]))
   \<and> (\<forall>meta e. ghGetContentsMeta m1 = Inr meta \<and> put p1 = Inl e
          \<and> \<not> retry_on_422 e \<and> estatus e \<noteq> Some 409 \<longrightarrow>
        writeFileOverwriteStrict m1 p1 m2 p2
          = (Inl e, [GetMeta, Put (or_null (meta_sha meta))]))
   \<and> (\<forall>meta e e2. ghGetContentsMeta m1 = Inr meta \<and> put p1 = Inl e
          \<and> (retry_on_422 e \<or> estatus e = Some 409) \<and> ghGetContentsMeta m2 = Inl e2 \<longrightarrow>
        writeFileOverwriteStrict m1 p1 m2 p2
          = (Inl e2, [GetMeta, Put (or_null (meta_sha meta)), GetMeta]))
   \<and> (\<forall>meta e meta2 s2. ghGetContentsMeta m1 = Inr meta \<and> put p1 = Inl e
          \<and> (retry_on_422 e \<or> estatus e = Some 409) \<and> ghGetContentsMeta m2 = Inr meta2
          \<and> or_null (meta_sha meta2) = Some s2 \<longrightarrow>
        writeFileOverwriteStrict m1 p1 m2 p2
          = (put p2, [GetMeta, Put (or_null (meta_sha meta)), GetMeta, Put (Some s2)]))
   \<and> (\<forall>meta e meta2. ghGetContentsMeta m1 = Inr meta \<and> put p1 = Inl e
          \<and> retry_on_422 e \<and> ghGetContentsMeta m2 = Inr meta2
          \<and> or_null (meta_sha meta2) = None \<longrightarrow>
        writeFileOverwriteStrict m1 p1 m2 p2
          = (put p2, [GetMeta, Put (or_null (meta_sha meta)), GetMeta, Put None]))
   \<and> (\<forall>meta e meta2. ghGetContentsMeta m1 = Inr meta \<and> put p1 = Inl e
          \<and> \<not> retry_on_422 e \<and> estatus e = Some 409 \<and> ghGetContentsMeta m2 = Inr meta2
          \<and> or_null (meta_sha meta2) = None \<longrightarrow>
        writeFileOverwriteStrict m1 p1 m2 p2
          = (Inl e, [GetMeta, Put (or_null (meta_sha meta)), GetMeta]))
   \<and> (\<forall>e. estatus e = Some 422 \<longrightarrow> retry_on_422 e)
   \<and> length (filter is_put (snd (writeFileOverwriteStrict m1 p1 m2 p2))) \<le> 2
   \<and> length (filter (\<lambda>r. r = GetMeta) (snd (writeFileOverwriteStrict m1 p1 m2 p2))) \<le> 2"
proof (intro conjI allI impI)
  show "length (filter is_put (snd (writeFileOverwriteStrict m1 p1 m2 p2))) \<le> 2"
    by (simp add: writeFileOverwriteStrict_def is_put_def split: sum.splits option.splits)
  show "length (filter (\<lambda>r. r = GetMeta) (snd (writeFileOverwriteStrict m1 p1 m2 p2))) \<le> 2"
    by (simp add: writeFileOverwriteStrict_def split: sum.splits option.splits)
qed (auto simp: writeFileOverwriteStrict_def retry_on_422_def split: sum.splits option.splits)

theorem write_retries_at_most_once_witness:
  "ghGetContentsMeta (Inr found_s1) = Inr (Some (Some (str ''s1'')))
   \<and> put (Inr conflict) = Inl (JsError (str ''409 Conflict: x.txt does not match'') (Some 409))
   \<and> ghGetContentsMeta (Inr found_s2) = Inr (Some (Some (str ''s2'')))
   \<and> or_null (meta_sha (Some (Some (str ''s2'')))) = Some (str ''s2'')
   \<and> put (Inr written) = Inr ()
   \<and> writeFileOverwriteStrict (Inr found_s1) (Inr conflict) (Inr found_s2) (Inr written)
       = (Inr (), [GetMeta, Put (Some (str ''s1'')), GetMeta, Put (Some (str ''s2''))])"
proof -
  let ?e = "JsError (str ''409 Conflict: x.txt does not match'') (Some 409)"
  have m: "status_message conflict = str ''409 Conflict: x.txt does not match''"
    by (simp add: status_message_def conflict_def show_nat.simps str_def)
  have a: "ghGetContentsMeta (Inr found_s1) = Inr (Some (Some (str ''s1'')))"
    by (simp add: ghGetContentsMeta_def found_s1_def ok_def)
  have b: "put (Inr conflict) = Inl ?e"
    using m by (simp add: put_def) (simp add: conflict_def)
  have c: "ghGetContentsMeta (Inr found_s2) = Inr (Some (Some (str ''s2'')))"
    by (simp add: ghGetContentsMeta_def found_s2_def ok_def)
  have d: "or_null (meta_sha (Some (Some (str ''s2'')))) = Some (str ''s2'')"
    by (simp add: meta_sha_def or_null_def str_def)
  have d1: "or_null (meta_sha (Some (Some (str ''s1'')))) = Some (str ''s1'')"
    by (simp add: meta_sha_def or_null_def str_def)
  have p: "put (Inr written) = Inr ()"
    by (simp add: put_def written_def)
  have s: "retry_on_422 ?e \<or> estatus ?e = Some 409" by simp
  have "\<forall>meta e meta2 s2. ghGetContentsMeta (Inr found_s1) = Inr meta \<and> put (Inr conflict) = Inl e
          \<and> (retry_on_422 e \<or> estatus e = Some 409) \<and> ghGetContentsMeta (Inr found_s2) = Inr meta2
          \<and> or_null (meta_sha meta2) = Some s2 \<longrightarrow>
        writeFileOverwriteStrict (Inr found_s1) (Inr conflict) (Inr found_s2) (Inr written)
          = (put (Inr written), [GetMeta, Put (or_null (meta_sha meta)), GetMeta, Put (Some s2)])"
    using write_retries_at_most_once
      [where ?m1.0 = "Inr found_s1" and ?p1.0 = "Inr conflict" and ?m2.0 = "Inr found_s2"
         and ?p2.0 = "Inr written"]
    by blast
  with a b c d s
  have "writeFileOverwriteStrict (Inr found_s1) (Inr conflict) (Inr found_s2) (Inr written)
          = (put (Inr written),
             [GetMeta, Put (or_null (meta_sha (Some (Some (str ''s1''))))), GetMeta,
              Put (Some (str ''s2''))])"
    by blast
  with a b c d p d1 show ?thesis by simp
qed

text \<open>
  C3 as it is written fails on a 409 whose second fetch finds the file gone (deleted in
  the meantime): the code makes no second PUT and throws the first error.
\<close>

theorem write_retry_counterexample:
  "ghGetContentsMeta (Inr found_s1) = Inr (Some (Some (str ''s1'')))
   \<and> put (Inr conflict) = Inl (JsError (str ''409 Conflict: x.txt does not match'') (Some 409))
   \<and> ghGetContentsMeta (Inr not_found) = Inr None
   \<and> writeFileOverwriteStrict (Inr found_s1) (Inr conflict) (Inr not_found) (Inr written)
       = (Inl (JsError (str ''409 Conflict: x.txt does not match'') (Some 409)),
          [GetMeta, Put (Some (str ''s1'')), GetMeta])"
proof -
  have m: "status_message conflict = str ''409 Conflict: x.txt does not match''"
    by (simp add: status_message_def conflict_def show_nat.simps str_def)
  have a: "ghGetContentsMeta (Inr found_s1) = Inr (Some (Some (str ''s1'')))"
    by (simp add: ghGetContentsMeta_def found_s1_def ok_def)
  have b: "put (Inr conflict) = Inl (JsError (str ''409 Conflict: x.txt does not match'') (Some 409))"
    using m by (simp add: put_def) (simp add: conflict_def)
  have c: "ghGetContentsMeta (Inr not_found) = Inr None"
    by (simp add: ghGetContentsMeta_def not_found_def)
  have r: "\<not> retry_on_422 (JsError (str ''409 Conflict: x.txt does not match'') (Some 409))"
    by (simp add: retry_on_422_def includes_ci_def startsWith_def fold_ascii_def str_def)
  show ?thesis
    using a b c r
    by (simp add: writeFileOverwriteStrict_def meta_sha_def or_null_def str_def)
qed

subsection \<open>The polling cycle\<close>

lemma cycle_body_timers:
  "timers (snd (cycle_body env s)) = timers s"
  "nextPollTimeout (snd (cycle_body env s)) = nextPollTimeout s"
  "timerSeq (snd (cycle_body env s)) = timerSeq s"
  "isSyncing (snd (cycle_body env s)) = isSyncing s"
  by (simp_all add: cycle_body_def split: prod.splits sum.splits)

lemma cycle_body_backoff:
  "backoffMs (snd (cycle_body env s)) = (case fst (cycle_body env s) of Thrown e \<Rightarrow> backoffMs s | _ \<Rightarrow> 0)"
  by (simp add: cycle_body_def split: prod.splits sum.splits)

lemma on_error_keeps:
  "timers (on_error e s) = timers s"
  "nextPollTimeout (on_error e s) = nextPollTimeout s"
  "timerSeq (on_error e s) = timerSeq s"
  by (simp_all add: on_error_def Let_def)

lemma on_error_backoff:
  "backoffMs (on_error e s) =
     (if rate_limited (message e)
      then (if backoffMs s = 0 then 5000 else min (backoffMs s * 2) 60000)
      else backoffMs s)"
  by (simp add: on_error_def Let_def)

lemma scheduleNextPoll_fields:
  "isSyncing (scheduleNextPoll poll s) = isSyncing s"
  "backoffMs (scheduleNextPoll poll s) = backoffMs s"
  "nextPollTimeout (scheduleNextPoll poll s) = Some (Suc (timerSeq s))"
  "timerSeq (scheduleNextPoll poll s) = Suc (timerSeq s)"
  "timers (scheduleNextPoll poll s) =
     filter (\<lambda>t. Some (fst t) \<noteq> nextPollTimeout s) (timers s)
       @ [(Suc (timerSeq s), plus_ms (poll_base poll) (backoffMs s))]"
  by (auto simp: scheduleNextPoll_def clearTimeout_def Let_def split: option.splits
      intro: filter_cong)

lemma cycle_end_fields:
  "isSyncing (cycle_end poll os) = False"
  "backoffMs (cycle_end poll os) =
     (case fst os of Thrown e \<Rightarrow> backoffMs (on_error e (snd os)) | _ \<Rightarrow> backoffMs (snd os))"
  "nextPollTimeout (cycle_end poll os) = Some (Suc (timerSeq (snd os)))"
  "timers (cycle_end poll os) =
     filter (\<lambda>t. Some (fst t) \<noteq> nextPollTimeout (snd os)) (timers (snd os))
       @ [(Suc (timerSeq (snd os)), plus_ms (poll_base poll) (backoffMs (cycle_end poll os)))]"
  by (simp_all add: cycle_end_def Let_def scheduleNextPoll_fields on_error_keeps
      split: outcome.splits)

lemma step_in_flight:
  assumes "inflight g = (if isSyncing (st g) then 1 else 0)"
  shows "inflight (step g e) = (if isSyncing (st (step g e)) then 1 else 0)"
proof (cases e)
  case Invoke
  then show ?thesis using assms by (simp add: invoke_def)
next
  case TimerFires
  then show ?thesis using assms by (simp add: invoke_def split: list.splits)
next
  case (Completes env)
  then show ?thesis using assms by (simp add: cycle_end_fields split: if_splits)
qed

lemma run_in_flight:
  "inflight g = (if isSyncing (st g) then 1 else 0) \<Longrightarrow>
   inflight (run g es) = (if isSyncing (st (run g es)) then 1 else 0)"
  unfolding run_def
proof (induction es arbitrary: g)
  case Nil
  then show ?case by simp
next
  case (Cons e es)
  from step_in_flight [OF Cons.prems] Cons.IH [of "step g e"] show ?case by simp
qed

lemma cycle_end_one_timer:
  assumes "kept_handle_only (snd os)"
  shows "timers (cycle_end poll os)
           = [(Suc (timerSeq (snd os)), plus_ms (poll_base poll) (backoffMs (cycle_end poll os)))]"
    and "kept_handle_only (cycle_end poll os)"
proof -
  have "filter (\<lambda>t. Some (fst t) \<noteq> nextPollTimeout (snd os)) (timers (snd os)) = []"
    using assms by (auto simp: kept_handle_only_def filter_empty_conv list_all_iff)
  then show t: "timers (cycle_end poll os)
           = [(Suc (timerSeq (snd os)), plus_ms (poll_base poll) (backoffMs (cycle_end poll os)))]"
    by (simp add: cycle_end_fields(4))
  show "kept_handle_only (cycle_end poll os)"
    unfolding kept_handle_only_def using t by (simp add: cycle_end_fields(3))
qed

lemma cycle_body_kept: "kept_handle_only (snd (cycle_body env s)) = kept_handle_only s"
  by (simp add: kept_handle_only_def cycle_body_timers)

lemma cycle_end_timerSeq: "timerSeq (cycle_end poll os) = Suc (timerSeq (snd os))"
  by (simp add: cycle_end_def Let_def scheduleNextPoll_fields on_error_keeps
      split: outcome.splits)

lemma refreshBoard_idle:
  assumes "\<not> isSyncing s"
  shows "\<not> isSyncing (refreshBoard env s)"
    and "timerSeq (refreshBoard env s) = Suc (timerSeq s)"
    and "kept_handle_only s \<Longrightarrow> kept_handle_only (refreshBoard env s)"
proof -
  have r: "refreshBoard env s
             = cycle_end (pollIntervalMs env) (cycle_body env (s\<lparr>isSyncing := True\<rparr>))"
    using assms by (simp add: refreshBoard_def)
  show "\<not> isSyncing (refreshBoard env s)" by (simp add: r cycle_end_fields(1))
  show "timerSeq (refreshBoard env s) = Suc (timerSeq s)"
    by (simp add: r cycle_end_timerSeq cycle_body_timers)
  assume "kept_handle_only s"
  then have "kept_handle_only (snd (cycle_body env (s\<lparr>isSyncing := True\<rparr>)))"
    by (simp add: kept_handle_only_def cycle_body_timers)
  then show "kept_handle_only (refreshBoard env s)"
    unfolding r by (rule cycle_end_one_timer(2))
qed

lemma step_kept:
  assumes "kept_handle_only (st g)"
  shows "kept_handle_only (st (step g e))"
proof (cases e)
  case Invoke
  then show ?thesis using assms by (simp add: invoke_def kept_handle_only_def)
next
  case TimerFires
  then show ?thesis using assms
    by (auto simp: invoke_def kept_handle_only_def split: list.splits)
next
  case (Completes env)
  then show ?thesis using assms
    by (simp add: cycle_end_one_timer(2) cycle_body_kept)
qed

lemma run_kept: "kept_handle_only (st g) \<Longrightarrow> kept_handle_only (st (run g es))"
  unfolding run_def
proof (induction es arbitrary: g)
  case Nil
  then show ?case by simp
next
  case (Cons e es)
  from Cons.IH [OF step_kept [OF Cons.prems, of e]] show ?case by simp
qed

lemma step_scheduled:
  assumes "isSyncing (st g) \<or> timers (st g) \<noteq> []"
  shows "isSyncing (st (step g e)) \<or> timers (st (step g e)) \<noteq> []"
proof (cases e)
  case Invoke
  then show ?thesis using assms by (simp add: invoke_def)
next
  case TimerFires
  then show ?thesis using assms by (auto simp: invoke_def split: list.splits)
next
  case (Completes env)
  then show ?thesis using assms by (simp add: cycle_end_fields(4))
qed

lemma run_scheduled:
  "isSyncing (st g) \<or> timers (st g) \<noteq> [] \<Longrightarrow>
   isSyncing (st (run g es)) \<or> timers (st (run g es)) \<noteq> []"
  unfolding run_def
proof (induction es arbitrary: g)
  case Nil
  then show ?case by simp
next
  case (Cons e es)
  from Cons.IH [OF step_scheduled [OF Cons.prems, of e]] show ?case by simp
qed

lemma show_nat_3digits:
  "show_nat 403 = str ''403''" "show_nat 429 = str ''429''" "show_nat 500 = str ''500''"
  by (simp_all add: show_nat.simps str_def)

lemma rate_limited_status:
  assumes "status res = 403 \<or> status res = 429"
  shows "rate_limited (status_message res)"
  using assms
  by (auto simp: rate_limited_def starts_with_code_def startsWith_def status_message_def
      show_nat_3digits word_char_def str_def nth_append)

lemma cycle_with_failing_read:
  assumes "status (answer_with code reason) \<noteq> 304" and "\<not> ok (answer_with code reason)"
  shows "fst (cycle_body (cycle_with poll True (Inr (answer_with code reason))) s)
           = Thrown (JsError (status_message (answer_with code reason)) None)"
  using assms
  by (simp add: cycle_body_def cycle_with_def listDirectory_def ghGetJsonWithEtag_def
      discoverTeamsFromGitHub_def listRegistry_def
      listing_x_def file_x_def ok_def is_txt_def fold_ascii_def any_item_def answering_def
      readFileContent_def str_def)

lemma cycle_with_locked:
  "fst (cycle_body (cycle_with poll False a) s) = Locked"
  by (simp add: cycle_body_def cycle_with_def split: prod.splits)

text \<open>
  C5. In every run of the engine from the state the page starts with, the number of
  cycles in flight is 1 when \<open>isSyncing\<close> is set and 0 when it is not, so never more than
  one. A call of \<open>refreshBoard\<close> while \<open>isSyncing\<close> is set changes no state; a call while
  it is not set sets it and starts a cycle; the end of a cycle clears it.
\<close>

theorem one_cycle_in_flight:
  "inflight (run initial_engine es)
     = (if isSyncing (st (run initial_engine es)) then 1 else 0)
   \<and> inflight (run initial_engine es) \<le> 1
   \<and> (isSyncing s \<longrightarrow> refreshBoard env s = s)
   \<and> (isSyncing (st g) \<longrightarrow> step g Invoke = g)
   \<and> (\<not> isSyncing (st g) \<longrightarrow>
        isSyncing (st (step g Invoke)) \<and> inflight (step g Invoke) = Suc (inflight g))
   \<and> (0 < inflight g \<longrightarrow>
        \<not> isSyncing (st (step g (Completes env)))
        \<and> inflight (step g (Completes env)) = inflight g - 1)
   \<and> (\<not> isSyncing s \<longrightarrow> \<not> isSyncing (refreshBoard env s))"
proof -
  have i: "inflight initial_engine = (if isSyncing (st initial_engine) then 1 else 0)"
    by (simp add: initial_engine_def initial_state_def)
  have a: "inflight (run initial_engine es)
     = (if isSyncing (st (run initial_engine es)) then 1 else 0)"
    by (rule run_in_flight [OF i])
  then have b: "inflight (run initial_engine es) \<le> 1" by simp
  have c: "isSyncing s \<longrightarrow> refreshBoard env s = s" by (simp add: refreshBoard_def)
  have d: "isSyncing (st g) \<longrightarrow> step g Invoke = g" by (simp add: invoke_def)
  have e: "\<not> isSyncing (st g) \<longrightarrow>
        isSyncing (st (step g Invoke)) \<and> inflight (step g Invoke) = Suc (inflight g)"
    by (simp add: invoke_def)
  have f: "0 < inflight g \<longrightarrow>
        \<not> isSyncing (st (step g (Completes env)))
        \<and> inflight (step g (Completes env)) = inflight g - 1"
    by (simp add: cycle_end_fields)
  have h: "\<not> isSyncing s \<longrightarrow> \<not> isSyncing (refreshBoard env s)"
    by (simp add: refreshBoard_def cycle_end_fields)
  from a b c d e f h show ?thesis by blast
qed

theorem one_cycle_in_flight_witness:
  "isSyncing syncing
   \<and> refreshBoard forbidden_cycle syncing = syncing
   \<and> \<not> isSyncing (st initial_engine)
   \<and> isSyncing (st (step initial_engine Invoke))
   \<and> inflight (step initial_engine Invoke) = 1
   \<and> step (step initial_engine Invoke) Invoke = step initial_engine Invoke
   \<and> inflight (run initial_engine [Invoke, Invoke, TimerFires]) = 1
   \<and> \<not> isSyncing (st (step (step initial_engine Invoke) (Completes locked_cycle)))
   \<and> inflight (step (step initial_engine Invoke) (Completes locked_cycle)) = 0"
proof -
  have a: "isSyncing syncing" by (simp add: syncing_def)
  have b: "\<not> isSyncing (st initial_engine)"
    by (simp add: initial_engine_def initial_state_def)
  note th = one_cycle_in_flight
  from th [where s = syncing and env = forbidden_cycle] a
  have 1: "refreshBoard forbidden_cycle syncing = syncing" by blast
  from th [where g = initial_engine] b
  have 2: "isSyncing (st (step initial_engine Invoke))"
    and 3: "inflight (step initial_engine Invoke) = Suc (inflight initial_engine)"
    by blast+
  from th [where g = "step initial_engine Invoke"] 2
  have 4: "step (step initial_engine Invoke) Invoke = step initial_engine Invoke" by blast
  have 5: "inflight (step initial_engine Invoke) = 1"
    using 3 by (simp add: initial_engine_def)
  have "run initial_engine [Invoke, Invoke, TimerFires]
          = step (step (step initial_engine Invoke) Invoke) TimerFires"
    by (simp add: run_def)
  then have 6: "inflight (run initial_engine [Invoke, Invoke, TimerFires]) = 1"
    using 4 5 by (simp add: invoke_def initial_engine_def initial_state_def)
  from th [where g = "step initial_engine Invoke" and env = locked_cycle] 5
  have 7: "\<not> isSyncing (st (step (step initial_engine Invoke) (Completes locked_cycle)))"
    and 8: "inflight (step (step initial_engine Invoke) (Completes locked_cycle))
              = inflight (step initial_engine Invoke) - 1"
    by simp_all
  from a b 1 2 4 5 6 7 8 show ?thesis by simp
qed

text \<open>
  C6, as the code has it. Whatever way the \<open>try\<close> block ends (updated, locked or
  thrown), the cycle ends by leaving exactly one polling timer, whose delay is
  \<open>max(2000, poll interval)\<close> (10000 in place of a poll interval that is 0 or not a
  number) plus the backoff as the cycle leaves it; for a poll interval of at least 2000
  that is the poll interval plus the backoff. In every run of the engine there is at most
  one polling timer, and once \<open>refreshBoard\<close> has been called a cycle is in flight or a
  polling timer is pending.
\<close>

theorem next_poll_always_scheduled:
  "(0 < inflight (run initial_engine es) \<longrightarrow>
      timers (st (step (run initial_engine es) (Completes env)))
        = [(Suc (timerSeq (st (run initial_engine es))),
            plus_ms (poll_base (pollIntervalMs env))
              (backoffMs (st (step (run initial_engine es) (Completes env)))))])
   \<and> (\<not> isSyncing s \<and> kept_handle_only s \<longrightarrow>
      timers (refreshBoard env s)
        = [(Suc (timerSeq s),
            plus_ms (poll_base (pollIntervalMs env)) (backoffMs (refreshBoard env s)))])
   \<and> (2000 \<le> q \<longrightarrow> plus_ms (poll_base (Fin q)) b = Fin (q + of_nat b))
   \<and> plus_ms (poll_base (Fin q)) b = Fin ((if q = 0 then 10000 else max 2000 q) + of_nat b)
   \<and> length (timers (st (run initial_engine es))) \<le> 1
   \<and> (isSyncing (st (run initial_engine (Invoke # es)))
        \<or> timers (st (run initial_engine (Invoke # es))) \<noteq> [])"
proof -
  have k0: "kept_handle_only (st initial_engine)"
    by (simp add: kept_handle_only_def initial_engine_def initial_state_def)
  have k: "kept_handle_only (st (run initial_engine es))" by (rule run_kept [OF k0])
  have a: "0 < inflight (run initial_engine es) \<longrightarrow>
      timers (st (step (run initial_engine es) (Completes env)))
        = [(Suc (timerSeq (st (run initial_engine es))),
            plus_ms (poll_base (pollIntervalMs env))
              (backoffMs (st (step (run initial_engine es) (Completes env)))))]"
    using cycle_end_one_timer(1)
      [of "cycle_body env (st (run initial_engine es))" "pollIntervalMs env"] k
    by (simp add: cycle_body_kept cycle_body_timers)
  have b: "\<not> isSyncing s \<and> kept_handle_only s \<longrightarrow>
      timers (refreshBoard env s)
        = [(Suc (timerSeq s),
            plus_ms (poll_base (pollIntervalMs env)) (backoffMs (refreshBoard env s)))]"
    using cycle_end_one_timer(1)
      [of "cycle_body env (s\<lparr>isSyncing := True\<rparr>)" "pollIntervalMs env"]
    by (simp add: refreshBoard_def cycle_body_kept cycle_body_timers kept_handle_only_def)
  have c: "2000 \<le> q \<longrightarrow> plus_ms (poll_base (Fin q)) b = Fin (q + of_nat b)"
    by (auto simp: plus_ms_def poll_base_def)
  have c': "plus_ms (poll_base (Fin q)) b = Fin ((if q = 0 then 10000 else max 2000 q) + of_nat b)"
    by (simp add: plus_ms_def poll_base_def)
  have d: "length (timers (st (run initial_engine es))) \<le> 1"
    using k by (simp add: kept_handle_only_def)
  have "isSyncing (st (step initial_engine Invoke))"
    by (simp add: invoke_def initial_engine_def initial_state_def)
  then have e: "isSyncing (st (run initial_engine (Invoke # es)))
        \<or> timers (st (run initial_engine (Invoke # es))) \<noteq> []"
    using run_scheduled [of "step initial_engine Invoke" es] by (simp add: run_def)
  from a b c c' d e show ?thesis by blast
qed

theorem next_poll_always_scheduled_witness:
  "\<not> isSyncing initial_state \<and> kept_handle_only initial_state
   \<and> backoffMs (refreshBoard forbidden_cycle initial_state) = 5000
   \<and> timers (refreshBoard forbidden_cycle initial_state) = [(1, Fin 15000)]
   \<and> timers (refreshBoard locked_cycle (refreshBoard forbidden_cycle initial_state))
       = [(2, Fin 2000)]"
proof -
  have s0: "\<not> isSyncing initial_state" "kept_handle_only initial_state"
      "timerSeq initial_state = 0" "backoffMs initial_state = 0"
    by (simp_all add: initial_state_def kept_handle_only_def)
  let ?e = "JsError (str ''403 Forbidden: '') None"
  have m: "status_message (answer_with 403 ''Forbidden'') = str ''403 Forbidden: ''"
    by (simp add: status_message_def answer_with_def show_nat_3digits str_def)
  have t: "\<And>s. fst (cycle_body forbidden_cycle s) = Thrown ?e"
    using cycle_with_failing_read [of 403 "''Forbidden''"] m
    by (simp add: forbidden_cycle_def answer_with_def ok_def)
  have r: "rate_limited (message ?e)"
    using rate_limited_status [of "answer_with 403 ''Forbidden''"] m
    by (simp add: answer_with_def)
  let ?s1 = "refreshBoard forbidden_cycle initial_state"
  have b1: "backoffMs ?s1 = 5000"
    using t r s0
    by (simp add: refreshBoard_def cycle_end_fields(2) on_error_backoff cycle_body_backoff)
  have p: "pollIntervalMs forbidden_cycle = Fin 10000" "pollIntervalMs locked_cycle = Fin 500"
    by (simp_all add: forbidden_cycle_def locked_cycle_def cycle_with_def)
  note th = next_poll_always_scheduled
  from th [where s = initial_state and env = forbidden_cycle, THEN conjunct2, THEN conjunct1]
    s0 b1 p
  have t1: "timers ?s1 = [(1, Fin 15000)]"
    by (simp add: plus_ms_def poll_base_def)
  have s1: "\<not> isSyncing ?s1" "kept_handle_only ?s1" "timerSeq ?s1 = 1"
    using refreshBoard_idle [OF s0(1), of forbidden_cycle] s0 by simp_all
  have l: "\<And>s. fst (cycle_body locked_cycle s) = Locked"
    by (simp add: locked_cycle_def cycle_with_locked)
  have b2: "backoffMs (refreshBoard locked_cycle ?s1) = 0"
    using l s1(1) by (simp add: refreshBoard_def cycle_end_fields(2) cycle_body_backoff)
  from th [where s = ?s1 and env = locked_cycle, THEN conjunct2, THEN conjunct1] s1 b2 p
  have t2: "timers (refreshBoard locked_cycle ?s1) = [(2, Fin 2000)]"
    by (simp add: plus_ms_def poll_base_def)
  from s0 b1 t1 t2 show ?thesis by simp
qed

text \<open>
  C6 as it is written fails for a poll interval below 2000: with 500 configured and no
  backoff the timer is set to 2000, not 500.
\<close>

theorem next_poll_delay_counterexample:
  "pollIntervalMs locked_cycle = Fin 500
   \<and> backoffMs (refreshBoard locked_cycle initial_state) = 0
   \<and> timers (refreshBoard locked_cycle initial_state) = [(1, Fin 2000)]"
proof -
  have s0: "\<not> isSyncing initial_state" "kept_handle_only initial_state"
      "timerSeq initial_state = 0"
    by (simp_all add: initial_state_def kept_handle_only_def)
  have p: "pollIntervalMs locked_cycle = Fin 500"
    by (simp add: locked_cycle_def cycle_with_def)
  have l: "\<And>s. fst (cycle_body locked_cycle s) = Locked"
    by (simp add: locked_cycle_def cycle_with_locked)
  have b: "backoffMs (refreshBoard locked_cycle initial_state) = 0"
    using l s0(1) by (simp add: refreshBoard_def cycle_end_fields(2) cycle_body_backoff)
  have "timers (refreshBoard locked_cycle initial_state)
          = [(Suc (timerSeq initial_state),
              plus_ms (poll_base (pollIntervalMs locked_cycle))
                (backoffMs (refreshBoard locked_cycle initial_state)))]"
    using cycle_end_one_timer(1)
      [of "cycle_body locked_cycle (initial_state\<lparr>isSyncing := True\<rparr>)"
         "pollIntervalMs locked_cycle"] s0
    by (simp add: refreshBoard_def cycle_body_kept cycle_body_timers kept_handle_only_def)
  with p b s0 show ?thesis by (simp add: plus_ms_def poll_base_def)
qed

text \<open>
  The backoff after a cycle. A cycle that throws an error whose message is of the
  rate-limit class (a file read answered 403 or 429 throws such an error) sets the backoff
  to 5000 when it was 0 and otherwise doubles it, capped at 60000. A cycle that ends
  without an error, updated or locked, sets the backoff to 0. A cycle that throws any
  other error leaves the backoff as it was.
\<close>

theorem backoff_floor_double_reset:
  "(\<not> isSyncing s \<and> fst (cycle_body env (s\<lparr>isSyncing := True\<rparr>)) = Thrown e
      \<and> rate_limited (message e) \<longrightarrow>
      backoffMs (refreshBoard env s)
        = (if backoffMs s = 0 then 5000 else min (backoffMs s * 2) 60000))
   \<and> (\<not> isSyncing s \<and> fst (cycle_body env (s\<lparr>isSyncing := True\<rparr>)) = Thrown e
      \<and> \<not> rate_limited (message e) \<longrightarrow>
      backoffMs (refreshBoard env s) = backoffMs s)
   \<and> (\<not> isSyncing s \<and> (fst (cycle_body env (s\<lparr>isSyncing := True\<rparr>)) = Updated
        \<or> fst (cycle_body env (s\<lparr>isSyncing := True\<rparr>)) = Locked) \<longrightarrow>
      backoffMs (refreshBoard env s) = 0)
   \<and> (status res = 403 \<or> status res = 429 \<longrightarrow>
      readFileContent path files (Inr res) = (Inl (JsError (status_message res) None), files)
      \<and> rate_limited (status_message res))"
proof -
  have a: "\<not> isSyncing s \<and> fst (cycle_body env (s\<lparr>isSyncing := True\<rparr>)) = Thrown e
      \<and> rate_limited (message e) \<longrightarrow>
      backoffMs (refreshBoard env s)
        = (if backoffMs s = 0 then 5000 else min (backoffMs s * 2) 60000)"
    by (simp add: refreshBoard_def cycle_end_fields(2) on_error_backoff cycle_body_backoff)
  have b: "\<not> isSyncing s \<and> fst (cycle_body env (s\<lparr>isSyncing := True\<rparr>)) = Thrown e
      \<and> \<not> rate_limited (message e) \<longrightarrow>
      backoffMs (refreshBoard env s) = backoffMs s"
    by (simp add: refreshBoard_def cycle_end_fields(2) on_error_backoff cycle_body_backoff)
  have c: "\<not> isSyncing s \<and> (fst (cycle_body env (s\<lparr>isSyncing := True\<rparr>)) = Updated
        \<or> fst (cycle_body env (s\<lparr>isSyncing := True\<rparr>)) = Locked) \<longrightarrow>
      backoffMs (refreshBoard env s) = 0"
    by (auto simp: refreshBoard_def cycle_end_fields(2) cycle_body_backoff)
  have d: "status res = 403 \<or> status res = 429 \<longrightarrow>
      readFileContent path files (Inr res) = (Inl (JsError (status_message res) None), files)
      \<and> rate_limited (status_message res)"
    using rate_limited_status [of res] by (auto simp: readFileContent_def ok_def)
  from a b c d show ?thesis by blast
qed

theorem backoff_floor_double_reset_witness:
  "\<not> isSyncing initial_state
   \<and> fst (cycle_body forbidden_cycle (initial_state\<lparr>isSyncing := True\<rparr>))
       = Thrown (JsError (str ''403 Forbidden: '') None)
   \<and> rate_limited (str ''403 Forbidden: '')
   \<and> backoffMs (refreshBoard forbidden_cycle initial_state) = 5000
   \<and> backoffMs (refreshBoard forbidden_cycle (refreshBoard forbidden_cycle initial_state)) = 10000
   \<and> backoffMs (refreshBoard forbidden_cycle
        (refreshBoard forbidden_cycle (refreshBoard forbidden_cycle initial_state))) = 20000
   \<and> backoffMs (refreshBoard locked_cycle (refreshBoard forbidden_cycle
        (refreshBoard forbidden_cycle (refreshBoard forbidden_cycle initial_state)))) = 0"
proof -
  let ?e = "JsError (str ''403 Forbidden: '') None"
  have m: "status_message (answer_with 403 ''Forbidden'') = str ''403 Forbidden: ''"
    by (simp add: status_message_def answer_with_def show_nat_3digits str_def)
  have t: "\<And>s. fst (cycle_body forbidden_cycle s) = Thrown ?e"
    using cycle_with_failing_read [of 403 "''Forbidden''"] m
    by (simp add: forbidden_cycle_def answer_with_def ok_def)
  have r: "rate_limited (message ?e)"
    using rate_limited_status [of "answer_with 403 ''Forbidden''"] m
    by (simp add: answer_with_def)
  have l: "\<And>s. fst (cycle_body locked_cycle s) = Locked"
    by (simp add: locked_cycle_def cycle_with_locked)
  have n: "\<And>env s. \<not> isSyncing s \<Longrightarrow> \<not> isSyncing (refreshBoard env s)"
    by (simp add: refreshBoard_def cycle_end_fields(1))
  have s0: "\<not> isSyncing initial_state" by (simp add: initial_state_def)
  have b0: "backoffMs initial_state = 0" by (simp add: initial_state_def)
  let ?s1 = "refreshBoard forbidden_cycle initial_state"
  let ?s2 = "refreshBoard forbidden_cycle ?s1"
  let ?s3 = "refreshBoard forbidden_cycle ?s2"
  note th = backoff_floor_double_reset [where env = forbidden_cycle and e = ?e]
  have b1: "backoffMs ?s1 = 5000"
    using th [where s = initial_state, THEN conjunct1] s0 t r b0 by simp
  have b2: "backoffMs ?s2 = 10000"
    using th [where s = ?s1, THEN conjunct1] n [OF s0] t r b1 by simp
  have b3: "backoffMs ?s3 = 20000"
    using th [where s = ?s2, THEN conjunct1] n [OF n [OF s0]] t r b2 by simp
  have b4: "backoffMs (refreshBoard locked_cycle ?s3) = 0"
    using backoff_floor_double_reset [where env = locked_cycle and s = ?s3,
        THEN conjunct2, THEN conjunct2, THEN conjunct1] n [OF n [OF n [OF s0]]] l
    by simp
  from s0 t r b1 b2 b3 b4 show ?thesis by simp
qed

text \<open>
  A cycle that ends in an error outside the rate-limit class: after a read answered 500
  the backoff stays at 5000.
\<close>

theorem other_failure_keeps_backoff:
  "fst (cycle_body failing_cycle (backed_off\<lparr>isSyncing := True\<rparr>))
       = Thrown (JsError (str ''500 Internal Server Error: '') None)
   \<and> backoffMs backed_off = 5000
   \<and> backoffMs (refreshBoard failing_cycle backed_off) = 5000"
proof -
  let ?e = "JsError (str ''500 Internal Server Error: '') None"
  have m: "status_message (answer_with 500 ''Internal Server Error'')
             = str ''500 Internal Server Error: ''"
    by (simp add: status_message_def answer_with_def show_nat_3digits str_def)
  have t: "\<And>s. fst (cycle_body failing_cycle s) = Thrown ?e"
    using cycle_with_failing_read [of 500 "''Internal Server Error''"] m
    by (simp add: failing_cycle_def answer_with_def ok_def)
  have r: "\<not> rate_limited (message ?e)"
    by (simp add: rate_limited_def starts_with_code_def startsWith_def includes_ci_def
        fold_ascii_def str_def)
  have b: "backoffMs backed_off = 5000" "\<not> isSyncing backed_off"
    by (simp_all add: backed_off_def initial_state_def)
  have "backoffMs (refreshBoard failing_cycle backed_off) = 5000"
    using t r b
    by (simp add: refreshBoard_def cycle_end_fields(2) on_error_backoff cycle_body_backoff)
  with t b show ?thesis by simp
qed

lemma listDirectory_refused:
  assumes "status res \<noteq> 304" and "\<not> ok res"
  shows "listDirectory path dirs (Inr res) = ([], dirs)"
  using assms by (simp add: listDirectory_def ghGetJsonWithEtag_def)

lemma cycle_body_refused_listing:
  assumes "listing env = Inr res" and "status res \<noteq> 304" and "\<not> ok res" and "tOk env"
  shows "fst (cycle_body env s) = Updated"
    and "currentUpdates (snd (cycle_body env s)) = []"
    and "lastApiError (snd (cycle_body env s)) = lastApiError s"
  using assms
  by (simp_all add: cycle_body_def listDirectory_refused aggregateReactions_def
      split: prod.splits)

lemma cycle_end_updated:
  assumes "fst os = Updated"
  shows "currentUpdates (cycle_end poll os) = currentUpdates (snd os)"
    and "lastApiError (cycle_end poll os) = lastApiError (snd os)"
  using assms
  by (simp_all add: cycle_end_def scheduleNextPoll_def clearTimeout_def Let_def
      split: option.splits)

text \<open>
  C4. A cycle whose directory listing the store answers 403 or 429 is a throttled cycle,
  and the message of that answer is of the class the \<open>catch\<close> block of \<open>refreshBoard\<close>
  tests for. But \<open>listDirectory\<close> catches the error and returns the empty list, so the
  cycle goes on with no file, ends as updated with an empty roster, records no error, and
  sets the backoff to 0 whatever it was.
\<close>

theorem throttled_listing_resets_backoff:
  "\<not> isSyncing s \<and> listing env = Inr res \<and> (status res = 403 \<or> status res = 429)
     \<and> tOk env \<longrightarrow>
   rate_limited (status_message res)
   \<and> fst (ghGetJsonWithEtag (dirPath env) (dirCache s) (listing env))
       = Inl (JsError (status_message res) None)
   \<and> fst (listDirectory (dirPath env) (dirCache s) (listing env)) = []
   \<and> fst (cycle_body env (s\<lparr>isSyncing := True\<rparr>)) = Updated
   \<and> currentUpdates (refreshBoard env s) = []
   \<and> lastApiError (refreshBoard env s) = lastApiError s
   \<and> backoffMs (refreshBoard env s) = 0"
proof (intro impI)
  assume h: "\<not> isSyncing s \<and> listing env = Inr res \<and> (status res = 403 \<or> status res = 429)
     \<and> tOk env"
  then have st: "status res \<noteq> 304" "\<not> ok res" by (auto simp: ok_def)
  let ?s = "s\<lparr>isSyncing := True\<rparr>"
  note cb = cycle_body_refused_listing [of env res ?s, OF _ st]
  have u: "fst (cycle_body env ?s) = Updated" using h by (simp add: cb)
  have r: "refreshBoard env s = cycle_end (pollIntervalMs env) (cycle_body env ?s)"
    using h by (simp add: refreshBoard_def)
  have 1: "rate_limited (status_message res)" using h by (simp add: rate_limited_status)
  have 2: "fst (ghGetJsonWithEtag (dirPath env) (dirCache s) (listing env))
       = Inl (JsError (status_message res) None)"
    using h st by (simp add: ghGetJsonWithEtag_def)
  have 3: "fst (listDirectory (dirPath env) (dirCache s) (listing env)) = []"
    using h st by (simp add: listDirectory_refused)
  have 4: "currentUpdates (refreshBoard env s) = []"
    using h by (simp add: r cycle_end_updated [OF u] cb)
  have 5: "lastApiError (refreshBoard env s) = lastApiError s"
    using h by (simp add: r cycle_end_updated [OF u] cb)
  have 6: "backoffMs (refreshBoard env s) = 0"
    using u by (simp add: r cycle_end_fields(2) cycle_body_backoff)
  from 1 2 3 u 4 5 6
  show "rate_limited (status_message res)
   \<and> fst (ghGetJsonWithEtag (dirPath env) (dirCache s) (listing env))
       = Inl (JsError (status_message res) None)
   \<and> fst (listDirectory (dirPath env) (dirCache s) (listing env)) = []
   \<and> fst (cycle_body env (s\<lparr>isSyncing := True\<rparr>)) = Updated
   \<and> currentUpdates (refreshBoard env s) = []
   \<and> lastApiError (refreshBoard env s) = lastApiError s
   \<and> backoffMs (refreshBoard env s) = 0"
    by blast
qed

theorem throttled_listing_resets_backoff_witness:
  "\<not> isSyncing backed_off \<and> backoffMs backed_off = 5000
   \<and> listing throttled_cycle = Inr throttled_listing \<and> status throttled_listing = 403
   \<and> tOk throttled_cycle
   \<and> rate_limited (status_message throttled_listing)
   \<and> currentUpdates (refreshBoard throttled_cycle backed_off) = []
   \<and> backoffMs (refreshBoard throttled_cycle backed_off) = 0
   \<and> backoffMs (refreshBoard throttled_cycle initial_state) = 0
   \<and> backoffMs (refreshBoard throttled_cycle (refreshBoard throttled_cycle initial_state)) = 0
   \<and> backoffMs (refreshBoard throttled_cycle
        (refreshBoard throttled_cycle (refreshBoard throttled_cycle initial_state))) = 0"
proof -
  have b: "\<not> isSyncing backed_off" "backoffMs backed_off = 5000"
    by (simp_all add: backed_off_def initial_state_def)
  have c: "listing throttled_cycle = Inr throttled_listing" "status throttled_listing = 403"
      "tOk throttled_cycle"
    by (simp_all add: throttled_cycle_def cycle_with_def throttled_listing_def)
  have s0: "\<not> isSyncing initial_state" by (simp add: initial_state_def)
  have n: "\<And>s. \<not> isSyncing s \<Longrightarrow> \<not> isSyncing (refreshBoard throttled_cycle s)"
    by (simp add: refreshBoard_def cycle_end_fields(1))
  note th = throttled_listing_resets_backoff [where env = throttled_cycle
      and res = throttled_listing]
  from th [where s = backed_off] b c
  have 1: "rate_limited (status_message throttled_listing)"
    and 2: "currentUpdates (refreshBoard throttled_cycle backed_off) = []"
    and 3: "backoffMs (refreshBoard throttled_cycle backed_off) = 0"
    by simp_all
  from th [where s = initial_state] s0 c
  have 4: "backoffMs (refreshBoard throttled_cycle initial_state) = 0" by simp
  from th [where s = "refreshBoard throttled_cycle initial_state"] n [OF s0] c
  have 5: "backoffMs (refreshBoard throttled_cycle (refreshBoard throttled_cycle initial_state))
             = 0"
    by simp
  from th [where s = "refreshBoard throttled_cycle (refreshBoard throttled_cycle initial_state)"]
    n [OF n [OF s0]] c
  have 6: "backoffMs (refreshBoard throttled_cycle
        (refreshBoard throttled_cycle (refreshBoard throttled_cycle initial_state))) = 0"
    by simp
  from b c 1 2 3 4 5 6 show ?thesis by simp
qed

subsection \<open>The reaction aggregate\<close>

text \<open>What one entry adds to the counts of its target.\<close>

definition bump :: "json \<Rightarrow> counts \<Rightarrow> counts" where
  "bump flags e =
     \<lparr>thumbs = thumbs e + (if truthy_opt (get_prop flags thumb_key) then 1 else 0),
      checks = checks e + (if truthy_opt (get_prop flags check_key) then 1 else 0),
      hearts = hearts e + (if truthy_opt (get_prop flags heart_key) then 1 else 0)\<rparr>"

definition counts_or_empty :: "counts option \<Rightarrow> counts" where
  "counts_or_empty c = (case c of None \<Rightarrow> emptyReactions | Some e \<Rightarrow> e)"

definition hits :: "jsstring \<Rightarrow> jsstring \<Rightarrow> (jsstring \<times> json) list \<Rightarrow> nat" where
  "hits t k es = length (filter (\<lambda>bf. fst bf = t \<and> truthy_opt (get_prop (snd bf) k)) es)"

definition add_hits :: "jsstring \<Rightarrow> (jsstring \<times> json) list \<Rightarrow> counts \<Rightarrow> counts" where
  "add_hits t es e =
     \<lparr>thumbs = thumbs e + hits t thumb_key es, checks = checks e + hits t check_key es,
      hearts = hearts e + hits t heart_key es\<rparr>"

lemma count_entry_not_null:
  "snd bf \<noteq> JNull \<Longrightarrow>
   count_entry totals bf = Inr (totals(fst bf \<mapsto> bump (snd bf) (counts_or_empty (totals (fst bf)))))"
proof -
  assume nn: "snd bf \<noteq> JNull"
  obtain a b c where e: "counts_or_empty (totals (fst bf)) = \<lparr>thumbs = a, checks = b, hearts = c\<rparr>"
    by (cases "counts_or_empty (totals (fst bf))") auto
  then have e': "(case totals (fst bf) of None \<Rightarrow> emptyReactions | Some e \<Rightarrow> e)
                   = \<lparr>thumbs = a, checks = b, hearts = c\<rparr>"
    by (simp add: counts_or_empty_def)
  show ?thesis
    using nn unfolding e
    by (cases "snd bf") (simp_all add: count_entry_def bump_def Let_def e')
qed

lemma count_entry_null: "snd bf = JNull \<Longrightarrow> count_entry totals bf = Inl null_property_error"
  by (simp add: count_entry_def)

lemma count_entries_closed:
  "list_all (\<lambda>bf. snd bf \<noteq> JNull) es \<Longrightarrow>
   count_entries totals es
     = Inr (\<lambda>t. if list_ex (\<lambda>bf. fst bf = t) es
                 then Some (add_hits t es (counts_or_empty (totals t))) else totals t)"
proof (induction es arbitrary: totals)
  case Nil
  then show ?case by simp
next
  case (Cons bf es)
  then have nn: "snd bf \<noteq> JNull" and rest: "list_all (\<lambda>bf. snd bf \<noteq> JNull) es" by simp_all
  show ?case
    unfolding count_entries.simps count_entry_not_null [OF nn] sum.case Cons.IH [OF rest]
    by (rule arg_cong [where f = Inr], rule ext)
       (auto simp: add_hits_def hits_def bump_def counts_or_empty_def list_ex_iff
          filter_empty_conv)
qed

lemma count_entries_null:
  "\<not> list_all (\<lambda>bf. snd bf \<noteq> JNull) es \<Longrightarrow> count_entries totals es = Inl null_property_error"
proof (induction es arbitrary: totals)
  case Nil
  then show ?case by simp
next
  case (Cons bf es)
  show ?case
  proof (cases "snd bf = JNull")
    case True
    then show ?thesis by (simp add: count_entry_null)
  next
    case False
    with Cons.prems have "\<not> list_all (\<lambda>bf. snd bf \<noteq> JNull) es" by simp
    from Cons.IH [OF this] False show ?thesis by (simp add: count_entry_not_null)
  qed
qed

lemma count_entries_append:
  "count_entries totals (xs @ ys)
     = (case count_entries totals xs of Inl e \<Rightarrow> Inl e | Inr t' \<Rightarrow> count_entries t' ys)"
  by (induction xs arbitrary: totals) (auto split: sum.splits)

definition all_entries :: "parsed list \<Rightarrow> (jsstring \<times> json) list" where
  "all_entries us = concat (map (\<lambda>u. entries (byTarget_of u)) us)"

lemma aggregate_from_entries:
  "aggregate_from totals us = count_entries totals (all_entries us)"
  by (induction us arbitrary: totals)
     (auto simp: all_entries_def count_entries_append split: sum.splits)

lemma all_entries_no_null:
  "list_all (\<lambda>bf. snd bf \<noteq> JNull) (all_entries us) = list_all no_null_flags us"
  by (induction us) (simp_all add: all_entries_def no_null_flags_def)

lemma all_entries_names:
  "list_ex (\<lambda>bf. fst bf = t) (all_entries us) = list_ex (\<lambda>u. names_target u t) us"
  by (induction us) (simp_all add: all_entries_def names_target_def)

lemma hits_one:
  "distinct (map fst es) \<Longrightarrow>
   hits t k es = (if list_ex (\<lambda>bf. fst bf = t \<and> truthy_opt (get_prop (snd bf) k)) es then 1 else 0)"
proof (induction es)
  case Nil
  then show ?case by (simp add: hits_def)
next
  case (Cons bf es)
  then have d: "distinct (map fst es)" and n: "fst bf \<notin> fst ` set es" by simp_all
  have none: "\<And>x. x \<in> set es \<Longrightarrow> fst x \<noteq> fst bf"
    using n by (metis imageI)
  have "fst bf = t \<Longrightarrow> hits t k es = 0"
    using none by (auto simp: hits_def filter_empty_conv)
  moreover have "fst bf = t \<Longrightarrow>
      \<not> list_ex (\<lambda>bf. fst bf = t \<and> truthy_opt (get_prop (snd bf) k)) es"
    using none by (auto simp: list_ex_iff)
  ultimately show ?case
    using Cons.IH [OF d] by (auto simp: hits_def)
qed

lemma hits_all_entries:
  "list_all distinct_targets us \<Longrightarrow>
   hits t k (all_entries us) = length (filter (\<lambda>u. marks u t k) us)"
proof (induction us)
  case Nil
  then show ?case by (simp add: hits_def all_entries_def)
next
  case (Cons u us)
  from Cons.prems have r: "list_all distinct_targets us" by simp
  from Cons.prems have d: "distinct (map fst (entries (byTarget_of u)))"
    by (simp add: distinct_targets_def)
  have "hits t k (all_entries (u # us))
          = hits t k (entries (byTarget_of u)) + hits t k (all_entries us)"
    by (simp add: hits_def all_entries_def)
  then show ?case
    using Cons.IH [OF r] hits_one [OF d, of t k] by (simp add: marks_def)
qed

lemma hits_permuted:
  assumes "mset us' = mset us"
  shows "hits t k (all_entries us') = hits t k (all_entries us)"
proof -
  have h: "\<And>vs. hits t k (all_entries vs)
             = sum_list (map (\<lambda>u. hits t k (entries (byTarget_of u))) vs)"
    subgoal for vs by (induction vs) (simp_all add: hits_def all_entries_def)
    done
  have "sum_mset (image_mset (\<lambda>u. hits t k (entries (byTarget_of u))) (mset us'))
          = sum_mset (image_mset (\<lambda>u. hits t k (entries (byTarget_of u))) (mset us))"
    using assms by simp
  then show ?thesis
    unfolding h by (simp add: sum_mset_sum_list [symmetric] del: sum_mset_sum_list)
qed

lemma permuted_same_set:
  assumes "mset us' = mset us"
  shows "list_all P us' = list_all P us" and "list_ex P us' = list_ex P us"
  using mset_eq_setD [OF assms] by (simp_all add: list_all_iff list_ex_iff)

text \<open>
  What the aggregate computes. For every list of parsed records none of whose flags is
  \<open>null\<close> and each of which names a target once, \<open>aggregateReactions\<close> returns totals
  that hold, for every target some record names and for each emoji, the number of records
  of the list that mark it, and hold nothing for a target no record names. The result is
  the same for every permutation of the list. It is computed from the records alone,
  starting from an empty map. When some flags value is \<open>null\<close>, the call throws.
\<close>

theorem aggregate_counts_markers:
  "(list_all no_null_flags us \<and> list_all distinct_targets us \<longrightarrow>
      (\<exists>totals. aggregateReactions us = Inr totals
         \<and> (\<forall>t. totals t =
               (if list_ex (\<lambda>u. names_target u t) us
                then Some \<lparr>thumbs = length (filter (\<lambda>u. marks u t thumb_key) us),
                           checks = length (filter (\<lambda>u. marks u t check_key) us),
                           hearts = length (filter (\<lambda>u. marks u t heart_key) us)\<rparr>
                else None))))
   \<and> (mset us' = mset us \<longrightarrow> aggregateReactions us' = aggregateReactions us)
   \<and> (\<not> list_all no_null_flags us \<longrightarrow> aggregateReactions us = Inl null_property_error)"
proof (intro conjI impI)
  assume h: "list_all no_null_flags us \<and> list_all distinct_targets us"
  then have nn: "list_all (\<lambda>bf. snd bf \<noteq> JNull) (all_entries us)"
    by (simp add: all_entries_no_null)
  have "aggregateReactions us
          = Inr (\<lambda>t. if list_ex (\<lambda>u. names_target u t) us
                      then Some \<lparr>thumbs = length (filter (\<lambda>u. marks u t thumb_key) us),
                                 checks = length (filter (\<lambda>u. marks u t check_key) us),
                                 hearts = length (filter (\<lambda>u. marks u t heart_key) us)\<rparr>
                      else None)"
  proof -
    have d: "list_all distinct_targets us" using h by simp
    have "add_hits t (all_entries us) (counts_or_empty None)
            = \<lparr>thumbs = length (filter (\<lambda>u. marks u t thumb_key) us),
               checks = length (filter (\<lambda>u. marks u t check_key) us),
               hearts = length (filter (\<lambda>u. marks u t heart_key) us)\<rparr>" for t
      by (simp add: add_hits_def counts_or_empty_def emptyReactions_def hits_all_entries [OF d])
    then show ?thesis
      unfolding aggregateReactions_def aggregate_from_entries count_entries_closed [OF nn]
      by (simp add: all_entries_names cong: if_cong)
  qed
  then show "\<exists>totals. aggregateReactions us = Inr totals
         \<and> (\<forall>t. totals t =
               (if list_ex (\<lambda>u. names_target u t) us
                then Some \<lparr>thumbs = length (filter (\<lambda>u. marks u t thumb_key) us),
                           checks = length (filter (\<lambda>u. marks u t check_key) us),
                           hearts = length (filter (\<lambda>u. marks u t heart_key) us)\<rparr>
                else None))"
    by simp
next
  assume m: "mset us' = mset us"
  show "aggregateReactions us' = aggregateReactions us"
  proof (cases "list_all no_null_flags us")
    case True
    then have a: "list_all (\<lambda>bf. snd bf \<noteq> JNull) (all_entries us)"
      and b: "list_all (\<lambda>bf. snd bf \<noteq> JNull) (all_entries us')"
      using permuted_same_set(1) [OF m] by (simp_all add: all_entries_no_null)
    show ?thesis
      unfolding aggregateReactions_def aggregate_from_entries
        count_entries_closed [OF a] count_entries_closed [OF b]
      by (simp add: all_entries_names permuted_same_set(2) [OF m] add_hits_def
          hits_permuted [OF m] cong: if_cong)
  next
    case False
    then have a: "\<not> list_all (\<lambda>bf. snd bf \<noteq> JNull) (all_entries us)"
      and b: "\<not> list_all (\<lambda>bf. snd bf \<noteq> JNull) (all_entries us')"
      using permuted_same_set(1) [OF m] by (simp_all add: all_entries_no_null)
    show ?thesis
      unfolding aggregateReactions_def aggregate_from_entries
      by (simp add: count_entries_null [OF a] count_entries_null [OF b])
  qed
next
  assume "\<not> list_all no_null_flags us"
  then have "\<not> list_all (\<lambda>bf. snd bf \<noteq> JNull) (all_entries us)"
    by (simp add: all_entries_no_null)
  then show "aggregateReactions us = Inl null_property_error"
    unfolding aggregateReactions_def aggregate_from_entries by (rule count_entries_null)
qed

lemma thumbs_up_entries:
  "entries (byTarget_of (thumbs_up_for t)) = [(str t, JObj [(thumb_key, JBool True)])]"
  by (simp add: thumbs_up_for_def byTarget_of_def out_init_def by_target_key_def
      updated_at_key_def str_def)

theorem aggregate_counts_markers_witness:
  "list_all no_null_flags [thumbs_up_for ''T'', thumbs_up_for ''U'', thumbs_up_for ''T'']
   \<and> list_all distinct_targets [thumbs_up_for ''T'', thumbs_up_for ''U'', thumbs_up_for ''T'']
   \<and> (\<exists>totals.
         aggregateReactions [thumbs_up_for ''T'', thumbs_up_for ''U'', thumbs_up_for ''T'']
           = Inr totals
         \<and> totals (str ''T'') = Some \<lparr>thumbs = 2, checks = 0, hearts = 0\<rparr>
         \<and> totals (str ''U'') = Some \<lparr>thumbs = 1, checks = 0, hearts = 0\<rparr>
         \<and> totals (str ''V'') = None)
   \<and> aggregateReactions [thumbs_up_for ''U'', thumbs_up_for ''T'', thumbs_up_for ''T'']
       = aggregateReactions [thumbs_up_for ''T'', thumbs_up_for ''U'', thumbs_up_for ''T'']"
proof -
  let ?us = "[thumbs_up_for ''T'', thumbs_up_for ''U'', thumbs_up_for ''T'']"
  have a: "list_all no_null_flags ?us"
    by (simp add: no_null_flags_def thumbs_up_entries)
  have b: "list_all distinct_targets ?us"
    by (simp add: distinct_targets_def thumbs_up_entries)
  have k: "thumb_key \<noteq> check_key" "thumb_key \<noteq> heart_key"
    by (simp_all add: thumb_key_def check_key_def heart_key_def)
  note th = aggregate_counts_markers [where us = ?us]
  from th a b obtain totals where t: "aggregateReactions ?us = Inr totals"
    and c: "\<forall>t. totals t =
               (if list_ex (\<lambda>u. names_target u t) ?us
                then Some \<lparr>thumbs = length (filter (\<lambda>u. marks u t thumb_key) ?us),
                           checks = length (filter (\<lambda>u. marks u t check_key) ?us),
                           hearts = length (filter (\<lambda>u. marks u t heart_key) ?us)\<rparr>
                else None)"
    by blast
  have 1: "totals (str ''T'') = Some \<lparr>thumbs = 2, checks = 0, hearts = 0\<rparr>"
    using k by (simp add: c names_target_def marks_def thumbs_up_entries truthy_opt_def str_def)
  have 2: "totals (str ''U'') = Some \<lparr>thumbs = 1, checks = 0, hearts = 0\<rparr>"
    using k by (simp add: c names_target_def marks_def thumbs_up_entries truthy_opt_def str_def)
  have 3: "totals (str ''V'') = None"
    by (simp add: c names_target_def thumbs_up_entries str_def)
  have 4: "aggregateReactions [thumbs_up_for ''U'', thumbs_up_for ''T'', thumbs_up_for ''T'']
       = aggregateReactions ?us"
    using aggregate_counts_markers
      [where us = ?us and us' = "[thumbs_up_for ''U'', thumbs_up_for ''T'', thumbs_up_for ''T'']"]
    by (simp add: add_mset_commute)
  from a b t 1 2 3 4 show ?thesis by blast
qed

lemma decode_null_flags:
  "fromBase64 (str ''eyJieV90YXJnZXQiOnsiVCI6bnVsbH19'') = str ''{\"by_target\":{\"T\":null}}''"
proof -
  have "atob (str ''eyJieV90YXJnZXQiOnsiVCI6bnVsbH19'')
          = Some (str ''{\"by_target\":{\"T\":null}}'')"
    by (simp add: atob_def str_def ascii_whitespace_def strip_padding_def b64_index_def)
  then show ?thesis by (simp add: fromBase64_def utf16_of_def str_def)
qed

text \<open>
  C7 at the input where the code breaks it: a record whose body carries the reactions
  \<open>{"by_target":{"T":null}}\<close>. \<open>parseContentVars\<close> accepts it, and \<open>flags['...']\<close> on
  the \<open>null\<close> throws a \<open>TypeError\<close>, so \<open>aggregateReactions\<close> returns no totals.
\<close>

theorem aggregate_null_flags_counterexample:
  "reactions (parseContentVars parses_null_flags null_flags_body) = null_flags_json
   \<and> aggregateReactions [parseContentVars parses_null_flags null_flags_body]
       = Inl null_property_error"
proof -
  have w: "\<not> white_space 82" "\<not> white_space 34" "\<not> white_space 61"
    by (simp_all add: white_space_def)
  have p: "reactions (parseContentVars parses_null_flags null_flags_body) = null_flags_json"
    using decode_null_flags
    by (simp add: parseContentVars_def null_flags_body_def parse_line_def trim_def
        white_space_def startsWith_def toUpperCase_def upper_unit_def unquote_def
        parse_reactions_def parses_null_flags_def is_object_def null_flags_json_def
        default_reactions_def truthy_opt_def by_target_key_def out_init_def Let_def str_def)
  then show ?thesis
    by (simp add: aggregateReactions_def byTarget_of_def null_flags_json_def
        by_target_key_def count_entry_def str_def)
qed

subsection \<open>Lines of a text\<close>

lemma split_lines_not_empty: "split_lines s \<noteq> []"
  by (induction s) (auto split: list.splits)

lemma split_lines_no_lf: "10 \<notin> set s \<Longrightarrow> split_lines s = [s]"
proof (induction s)
  case Nil
  then show ?case by simp
next
  case (Cons c cs)
  then have "c \<noteq> 10" and "10 \<notin> set cs" by auto
  moreover from \<open>10 \<notin> set cs\<close> have "cs \<noteq> [] \<Longrightarrow> hd cs \<noteq> 10" by (cases cs) auto
  ultimately show ?case using Cons.IH by auto
qed

lemma split_lines_line:
  "10 \<notin> set l \<Longrightarrow> l = [] \<or> last l \<noteq> 13 \<Longrightarrow>
   split_lines (l @ 10 # rest) = l # split_lines rest"
proof (induction l)
  case Nil
  then show ?case by simp
next
  case (Cons c l)
  then have c: "c \<noteq> 10" and l: "10 \<notin> set l" by auto
  have e: "l = [] \<or> last l \<noteq> 13" using Cons.prems(2) by (cases l) auto
  have "\<not> (c = 13 \<and> hd (l @ 10 # rest) = 10)"
  proof (cases l)
    case Nil
    then show ?thesis using Cons.prems(2) by simp
  next
    case (Cons d ds)
    then show ?thesis using l by auto
  qed
  then show ?case using c Cons.IH [OF l e] by auto
qed

lemma lines_have_no_lf: "l \<in> set (split_lines s) \<Longrightarrow> 10 \<notin> set l"
proof (induction s arbitrary: l rule: split_lines.induct)
  case 1
  then show ?case by simp
next
  case (2 c cs)
  show ?case
  proof (cases "c = 10")
    case True
    then show ?thesis using 2 by auto
  next
    case False
    note nl = this
    show ?thesis
    proof (cases "c = 13 \<and> cs \<noteq> [] \<and> hd cs = 10")
      case True
      then show ?thesis using 2 nl by auto
    next
      case False
      obtain x xs where x: "split_lines cs = x # xs"
        using split_lines_not_empty [of cs] by (cases "split_lines cs") auto
      then have "l = c # x \<or> l \<in> set xs" using "2.prems" nl False by auto
      moreover have "10 \<notin> set x" "\<And>y. y \<in> set xs \<Longrightarrow> 10 \<notin> set y"
        using "2.IH"(3) [OF nl False] x by auto
      ultimately show ?thesis using nl by auto
    qed
  qed
qed

lemma split_join_lines:
  "ls \<noteq> [] \<Longrightarrow> list_all (\<lambda>l. 10 \<notin> set l \<and> (l = [] \<or> last l \<noteq> 13)) ls \<Longrightarrow>
   split_lines (join_lines ls) = ls"
proof (induction ls rule: join_lines.induct)
  case 1
  then show ?case by simp
next
  case (2 l)
  then show ?case by (simp add: split_lines_no_lf)
next
  case (3 l m ls)
  then show ?case by (simp add: split_lines_line)
qed

lemma findIndex_Some:
  "findIndex P xs = Some i \<Longrightarrow> i < length xs \<and> P (xs ! i) \<and> (\<forall>j<i. \<not> P (xs ! j))"
proof (induction xs arbitrary: i)
  case Nil
  then show ?case by simp
next
  case (Cons x xs)
  show ?case
  proof (cases "P x")
    case True
    then show ?thesis using Cons.prems by auto
  next
    case False
    then obtain k where k: "findIndex P xs = Some k" "i = Suc k" using Cons.prems by auto
    from Cons.IH [OF k(1)] False k(2) show ?thesis by (auto simp: less_Suc_eq_0_disj)
  qed
qed

lemma findIndex_None: "findIndex P xs = None \<Longrightarrow> list_all (\<lambda>x. \<not> P x) xs"
  by (induction xs) (auto split: if_splits)

subsection \<open>The reaction write\<close>

text \<open>
  What the reaction write makes of a text. From the text it has read,
  \<open>upsertMyReactions\<close> writes the lines of that text joined by line feeds, with the first line that matches
  \<open>/^\s*REACTIONS_B64\s*=/\<close> replaced by the new \<open>REACTIONS_B64\<close> line, or with the new
  line pushed at the end when no line matches. Every other line stays at its place,
  character for character; in particular every line that is no \<open>REACTIONS_B64\<close> line.
  When the encoded payload holds no line feed and no line of the text ends in a carriage
  return, splitting the written text gives back exactly these lines.
\<close>

theorem reaction_write_keeps_other_lines:
  "(\<forall>i. findIndex is_reactions_line (split_lines body) = Some i \<longrightarrow>
        i < length (split_lines body)
        \<and> is_reactions_line (split_lines body ! i)
        \<and> (\<forall>j<i. \<not> is_reactions_line (split_lines body ! j))
        \<and> reactions_lines body encoded
            = (split_lines body)[i := quoted_var ''REACTIONS_B64'' encoded])
   \<and> (findIndex is_reactions_line (split_lines body) = None \<longrightarrow>
        list_all (\<lambda>l. \<not> is_reactions_line l) (split_lines body)
        \<and> reactions_lines body encoded
            = split_lines body @ [quoted_var ''REACTIONS_B64'' encoded])
   \<and> (\<forall>i<length (split_lines body).
        findIndex is_reactions_line (split_lines body) \<noteq> Some i \<longrightarrow>
        reactions_lines body encoded ! i = split_lines body ! i)
   \<and> (\<forall>i<length (split_lines body).
        \<not> is_reactions_line (split_lines body ! i) \<longrightarrow>
        reactions_lines body encoded ! i = split_lines body ! i)
   \<and> (readFileContent path files ans = (Inr body, files') \<longrightarrow>
        upsertMyReactions path files ans encoded
          = (join_lines (reactions_lines body encoded), files'))
   \<and> (10 \<notin> set encoded
        \<and> list_all (\<lambda>l. l = [] \<or> last l \<noteq> 13) (split_lines body) \<longrightarrow>
        split_lines (reactions_text body encoded) = reactions_lines body encoded)"
proof (intro conjI allI impI)
  fix i
  assume f: "findIndex is_reactions_line (split_lines body) = Some i"
  from findIndex_Some [OF f]
  show "i < length (split_lines body)" and "is_reactions_line (split_lines body ! i)"
    and "\<And>j. j < i \<Longrightarrow> \<not> is_reactions_line (split_lines body ! j)"
    by auto
  show "reactions_lines body encoded
            = (split_lines body)[i := quoted_var ''REACTIONS_B64'' encoded]"
    using f by (simp add: reactions_lines_def)
next
  assume f: "findIndex is_reactions_line (split_lines body) = None"
  show "list_all (\<lambda>l. \<not> is_reactions_line l) (split_lines body)"
    by (rule findIndex_None [OF f])
  show "reactions_lines body encoded = split_lines body @ [quoted_var ''REACTIONS_B64'' encoded]"
    using f by (simp add: reactions_lines_def)
next
  fix i
  assume i: "i < length (split_lines body)"
    and n: "findIndex is_reactions_line (split_lines body) \<noteq> Some i"
  show "reactions_lines body encoded ! i = split_lines body ! i"
    using i n by (cases "findIndex is_reactions_line (split_lines body)")
       (auto simp: reactions_lines_def nth_append)
next
  fix i
  assume i: "i < length (split_lines body)"
    and n: "\<not> is_reactions_line (split_lines body ! i)"
  have "findIndex is_reactions_line (split_lines body) \<noteq> Some i"
    using findIndex_Some [of is_reactions_line "split_lines body" i] n by auto
  then show "reactions_lines body encoded ! i = split_lines body ! i"
    using i by (cases "findIndex is_reactions_line (split_lines body)")
       (auto simp: reactions_lines_def nth_append)
next
  assume "readFileContent path files ans = (Inr body, files')"
  then show "upsertMyReactions path files ans encoded
          = (join_lines (reactions_lines body encoded), files')"
    by (simp add: upsertMyReactions_def reactions_text_def)
next
  assume h: "10 \<notin> set encoded \<and> list_all (\<lambda>l. l = [] \<or> last l \<noteq> 13) (split_lines body)"
  let ?new = "quoted_var ''REACTIONS_B64'' encoded"
  have news: "10 \<notin> set ?new" "last ?new \<noteq> 13" "?new \<noteq> []"
    using h by (auto simp: quoted_var_def str_def)
  have olds: "list_all (\<lambda>l. 10 \<notin> set l \<and> (l = [] \<or> last l \<noteq> 13)) (split_lines body)"
    using h lines_have_no_lf [where s = body] by (auto simp: list_all_iff)
  have "list_all (\<lambda>l. 10 \<notin> set l \<and> (l = [] \<or> last l \<noteq> 13)) (reactions_lines body encoded)"
  proof (cases "findIndex is_reactions_line (split_lines body)")
    case None
    then show ?thesis using olds news by (simp add: reactions_lines_def)
  next
    case (Some i)
    have "set ((split_lines body)[i := ?new]) \<subseteq> insert ?new (set (split_lines body))"
      by (rule set_update_subset_insert)
    then show ?thesis
      using olds news Some unfolding reactions_lines_def list_all_iff by (auto simp: Let_def)
  qed
  moreover have "reactions_lines body encoded \<noteq> []"
    using split_lines_not_empty [where s = body]
    by (cases "findIndex is_reactions_line (split_lines body)")
       (auto simp: reactions_lines_def)
  ultimately show "split_lines (reactions_text body encoded) = reactions_lines body encoded"
    unfolding reactions_text_def by (intro split_join_lines)
qed

lemma three_lines_split:
  "split_lines three_lines
     = [str ''TEAM=\"x\"'', str ''REACTIONS_B64=\"b2xk\"'', str ''NAME=\"y\"'']"
  by (simp add: three_lines_def str_def)

lemma three_lines_index: "findIndex is_reactions_line (split_lines three_lines) = Some 1"
  by (simp add: three_lines_split)
     (simp add: is_reactions_line_def white_space_def startsWith_def str_def)

theorem reaction_write_keeps_other_lines_witness:
  "findIndex is_reactions_line (split_lines three_lines) = Some 1
   \<and> reactions_lines three_lines (str ''bmV3'')
       = [str ''TEAM=\"x\"'', str ''REACTIONS_B64=\"bmV3\"'', str ''NAME=\"y\"'']
   \<and> readFileContent (str ''/a.txt'') cached_files (Inr not_modified)
       = (Inr (str ''TEAM=x''), cached_files)
   \<and> upsertMyReactions (str ''/a.txt'') cached_files (Inr not_modified) (str ''bmV3'')
       = (str ''TEAM=x'' @ [10] @ str ''REACTIONS_B64=\"bmV3\"'', cached_files)"
proof -
  note th = reaction_write_keeps_other_lines
  have i: "findIndex is_reactions_line (split_lines three_lines) = Some 1"
    by (rule three_lines_index)
  from th [where body = three_lines and encoded = "str ''bmV3''", THEN conjunct1] i
  have "reactions_lines three_lines (str ''bmV3'')
          = (split_lines three_lines)[1 := quoted_var ''REACTIONS_B64'' (str ''bmV3'')]"
    by blast
  then have 1: "reactions_lines three_lines (str ''bmV3'')
       = [str ''TEAM=\"x\"'', str ''REACTIONS_B64=\"bmV3\"'', str ''NAME=\"y\"'']"
    by (simp add: three_lines_split quoted_var_def str_def)
  have r: "readFileContent (str ''/a.txt'') cached_files (Inr not_modified)
       = (Inr (str ''TEAM=x''), cached_files)"
    by (simp add: readFileContent_def not_modified_def cached_files_def)
  have l: "reactions_lines (str ''TEAM=x'') (str ''bmV3'')
             = [str ''TEAM=x'', str ''REACTIONS_B64=\"bmV3\"'']"
    by (simp add: reactions_lines_def quoted_var_def is_reactions_line_def white_space_def
        startsWith_def str_def)
  from th [where body = "str ''TEAM=x''" and encoded = "str ''bmV3''" and path = "str ''/a.txt''"
      and files = cached_files and ans = "Inr not_modified" and files' = cached_files,
      THEN conjunct2, THEN conjunct2, THEN conjunct2, THEN conjunct2, THEN conjunct1] r
  have "upsertMyReactions (str ''/a.txt'') cached_files (Inr not_modified) (str ''bmV3'')
       = (join_lines (reactions_lines (str ''TEAM=x'') (str ''bmV3'')), cached_files)"
    by blast
  then have 2: "upsertMyReactions (str ''/a.txt'') cached_files (Inr not_modified) (str ''bmV3'')
       = (str ''TEAM=x'' @ [10] @ str ''REACTIONS_B64=\"bmV3\"'', cached_files)"
    by (simp add: l)
  from i 1 r 2 show ?thesis by blast
qed

text \<open>
  C10. The reaction write reads the file first, so as to carry its other lines over, and
  \<open>ensureMyFileExists\<close> has just made sure that the file exists. But when that read
  throws, \<open>catch { text = ''; }\<close> goes on with the empty text: what is written over the
  file is an empty line and the \<open>REACTIONS_B64\<close> line, and none of the lines the file
  holds is carried over. Here the file is one whose text \<open>TEAM=x\<close> is still in the cache,
  and its read is answered 500.
\<close>

theorem reaction_write_failed_read_counterexample:
  "cached_files (str ''/a.txt'')
     = Some \<lparr>etag = Some (str ''W1''), etext = str ''TEAM=x'', esha = Some (str ''s1'')\<rparr>
   \<and> fst (readFileContent (str ''/a.txt'') cached_files
          (Inr (answer_with 500 ''Internal Server Error'')))
       = Inl (JsError (str ''500 Internal Server Error: '') None)
   \<and> fst (upsertMyReactions (str ''/a.txt'') cached_files
          (Inr (answer_with 500 ''Internal Server Error'')) (str ''bmV3''))
       = [10] @ str ''REACTIONS_B64=\"bmV3\"''"
proof -
  have m: "status_message (answer_with 500 ''Internal Server Error'')
             = str ''500 Internal Server Error: ''"
    by (simp add: status_message_def answer_with_def show_nat.simps str_def)
  have r: "readFileContent (str ''/a.txt'') cached_files
          (Inr (answer_with 500 ''Internal Server Error''))
       = (Inl (JsError (str ''500 Internal Server Error: '') None), cached_files)"
    using m by (simp add: readFileContent_def ok_def) (simp add: answer_with_def)
  have l: "reactions_lines [] (str ''bmV3'') = [[], str ''REACTIONS_B64=\"bmV3\"'']"
    by (simp add: reactions_lines_def quoted_var_def is_reactions_line_def startsWith_def
        str_def)
  show ?thesis
    using r l by (simp add: upsertMyReactions_def reactions_text_def cached_files_def)
qed

subsection \<open>Base64 and UTF-8 there and back\<close>

lemma b64_index_char: "i < 64 \<Longrightarrow> b64_index (b64_char i) = Some i"
  by (auto simp: b64_index_def b64_char_def)

lemma b64_char_plain:
  "i < 64 \<Longrightarrow> b64_char i \<noteq> 61 \<and> \<not> ascii_whitespace (b64_char i) \<and> b64_char i \<noteq> 10"
  by (auto simp: b64_char_def ascii_whitespace_def)

lemma those_opt_index:
  "list_all (\<lambda>i. i < 64) sx \<Longrightarrow> those_opt (map b64_index (map b64_char sx)) = Some sx"
  by (induction sx) (simp_all add: b64_index_char)

lemma sextet_bounds:
  fixes a b c :: nat
  assumes "a < 256" "b < 256" "c < 256"
  shows "a div 4 < 64" "a mod 4 * 16 + b div 16 < 64" "b mod 16 * 4 + c div 64 < 64"
    "c mod 64 < 64" "b mod 16 * 4 < 64" "a mod 4 * 16 < 64"
proof -
  have 1: "a div 4 < 64" "b div 16 < 16" "c div 64 < 4"
    using assms by (simp_all add: less_mult_imp_div_less)
  have 2: "a mod 4 < 4" "b mod 16 < 16" "c mod 64 < 64" by simp_all
  show "a div 4 < 64" by (rule 1)
  show "a mod 4 * 16 + b div 16 < 64" using 1 2 by linarith
  show "b mod 16 * 4 + c div 64 < 64" using 1 2 by linarith
  show "c mod 64 < 64" by simp
  show "b mod 16 * 4 < 64" using 2 by linarith
  show "a mod 4 * 16 < 64" using 2 by linarith
qed

lemma encode_sextets_small:
  "list_all (\<lambda>b. b < 256) bs \<Longrightarrow> list_all (\<lambda>i. i < 64) (encode_sextets bs)"
proof (induction bs rule: encode_sextets.induct)
  case (1 a b c bs)
  then have "a < 256" "b < 256" "c < 256" by simp_all
  from sextet_bounds [OF this] 1 show ?case by simp
next
  case (2 a b)
  then have "a < 256" "b < 256" "b < 256" by simp_all
  from sextet_bounds [OF this] show ?case by simp
next
  case (3 a)
  then have "a < 256" "a < 256" "a < 256" by simp_all
  from sextet_bounds [OF this] show ?case by simp
next
  case 4
  then show ?case by simp
qed

lemma split_digit:
  fixes x y n :: nat
  assumes "y < n"
  shows "(x * n + y) div n = x" and "(x * n + y) mod n = y"
  using assms by simp_all

lemma back1: fixes a b :: nat assumes "b < 256"
  shows "a div 4 * 4 + (a mod 4 * 16 + b div 16) div 16 = a"
proof -
  have y: "b div 16 < 16" using assms by (simp add: less_mult_imp_div_less)
  show ?thesis using y by (simp add: split_digit(1) [OF y])
qed

lemma back2: fixes a b c :: nat assumes "b < 256" "c < 256"
  shows "(a mod 4 * 16 + b div 16) mod 16 * 16 + (b mod 16 * 4 + c div 64) div 4 = b"
proof -
  have y: "b div 16 < 16" "c div 64 < 4" using assms by (simp_all add: less_mult_imp_div_less)
  show ?thesis using y by (simp add: split_digit(2) [OF y(1)] split_digit(1) [OF y(2)])
qed

lemma back3: fixes b c :: nat assumes "c < 256"
  shows "(b mod 16 * 4 + c div 64) mod 4 * 64 + c mod 64 = c"
proof -
  have y: "c div 64 < 4" using assms by (simp_all add: less_mult_imp_div_less)
  show ?thesis using y by (simp add: split_digit(2) [OF y])
qed

lemma back4: fixes a b :: nat assumes "b < 256"
  shows "(a mod 4 * 16 + b div 16) mod 16 * 16 + (b mod 16 * 4) div 4 = b"
proof -
  have y: "b div 16 < 16" using assms by (simp add: less_mult_imp_div_less)
  show ?thesis using y by (simp add: split_digit(2) [OF y])
qed

lemma back5: fixes a :: nat shows "a div 4 * 4 + (a mod 4 * 16) div 16 = a"
  by simp

lemma mod3_step: "Suc (Suc (Suc n)) mod 3 = n mod 3"
proof -
  have "Suc (Suc (Suc n)) = n + 3" by simp
  then show ?thesis by (simp only: mod_add_self2)
qed

lemma mod4_step: "Suc (Suc (Suc (Suc n))) mod 4 = n mod 4"
proof -
  have "Suc (Suc (Suc (Suc n))) = n + 4" by simp
  then show ?thesis by (simp only: mod_add_self2)
qed

lemma decode_encode_sextets:
  "list_all (\<lambda>b. b < 256) bs \<Longrightarrow> decode_sextets (encode_sextets bs) = bs"
proof (induction bs rule: encode_sextets.induct)
  case (1 a b c bs)
  then have bb: "b < 256" "c < 256" and r: "list_all (\<lambda>b. b < 256) bs" by simp_all
  show ?case
    by (simp only: encode_sextets.simps append_Cons append_Nil decode_sextets.simps
        back1 [OF bb(1)] back2 [OF bb] back3 [OF bb(2)] "1.IH" [OF r])
next
  case (2 a b)
  then have bb: "b < 256" by simp
  show ?case
    by (simp only: encode_sextets.simps decode_sextets.simps back1 [OF bb] back4 [OF bb])
next
  case (3 a)
  show ?case by (simp only: encode_sextets.simps decode_sextets.simps back5)
next
  case 4
  then show ?case by simp
qed

lemma length_encode_sextets_mod:
  "length (encode_sextets bs) mod 4
     = (if length bs mod 3 = 0 then 0 else if length bs mod 3 = 1 then 2 else 3)"
  by (induction bs rule: encode_sextets.induct) (simp_all add: mod3_step mod4_step)

lemma strip_padding_sextets:
  assumes "list_all (\<lambda>i. i < 64) sx"
    and "length sx mod 4 = (if p = 0 then 0 else if p = 2 then 2 else 3)" and "p \<le> 2"
  shows "strip_padding (map b64_char sx @ replicate p 61) = map b64_char sx"
proof -
  have l: "sx \<noteq> [] \<Longrightarrow> last (map b64_char sx) \<noteq> 61"
    using assms(1) b64_char_plain [of "last sx"] by (simp add: last_map list_all_iff)
  consider "p = 0" | "p = 1" | "p = 2" using assms(3) by linarith
  then show ?thesis
  proof cases
    case 1
    then show ?thesis using l by (cases "sx = []") (auto simp: strip_padding_def)
  next
    case 2
    then have "length sx mod 4 = 3" using assms(2) by simp
    then have "Suc (length sx) mod 4 = 0" and "sx \<noteq> []" by (auto simp: mod_Suc)
    then show ?thesis using 2 l by (simp add: strip_padding_def butlast_append)
  next
    case 3
    then have "length sx mod 4 = 2" using assms(2) by simp
    then have "Suc (Suc (length sx)) mod 4 = 0" by (simp add: mod_Suc)
    then show ?thesis using 3
      by (simp add: strip_padding_def numeral_2_eq_2 butlast_append)
  qed
qed

lemma atob_btoa:
  assumes "list_all (\<lambda>b. b < 256) bs"
  shows "atob (btoa bs) = Some bs"
proof -
  let ?sx = "encode_sextets bs"
  let ?p = "(3 - length bs mod 3) mod 3"
  have sx: "list_all (\<lambda>i. i < 64) ?sx" by (rule encode_sextets_small [OF assms])
  have nw: "filter (\<lambda>c. \<not> ascii_whitespace c) (btoa bs) = btoa bs"
    using sx b64_char_plain
    by (auto simp: btoa_def filter_id_conv list_all_iff ascii_whitespace_def)
  have m: "length bs mod 3 = 0 \<or> length bs mod 3 = 1 \<or> length bs mod 3 = 2" by linarith
  have p: "length ?sx mod 4 = (if ?p = 0 then 0 else if ?p = 2 then 2 else 3)" "?p \<le> 2"
    using m by (auto simp: length_encode_sextets_mod)
  have s: "strip_padding (btoa bs) = map b64_char ?sx"
    unfolding btoa_def by (rule strip_padding_sextets [OF sx p])
  have n1: "length (map b64_char ?sx) mod 4 \<noteq> 1"
    using m by (auto simp: length_encode_sextets_mod)
  have "atob (btoa bs)
          = map_option decode_sextets (those_opt (map b64_index (map b64_char ?sx)))"
    using n1 by (simp add: atob_def nw s Let_def del: map_map)
  then show ?thesis
    by (simp only: those_opt_index [OF sx] option.map decode_encode_sextets [OF assms])
qed

lemma btoa_no_lf: "list_all (\<lambda>b. b < 256) bs \<Longrightarrow> 10 \<notin> set (btoa bs)"
  using encode_sextets_small [of bs] b64_char_plain
  by (auto simp: btoa_def list_all_iff)

lemma utf8_one:
  assumes "cp < 128"
  shows "utf8_decode (utf8_of cp @ rest) = map_option (\<lambda>cs. cp # cs) (utf8_decode rest)"
  using assms by (simp add: utf8_of_def)

lemma utf8_two:
  assumes "128 \<le> cp" "cp < 2048"
  shows "utf8_decode (utf8_of cp @ rest) = map_option (\<lambda>cs. cp # cs) (utf8_decode rest)"
proof -
  have q: "cp div 64 < 32" using assms by (simp add: less_mult_imp_div_less)
  have r: "cp mod 64 < 64" by simp
  have e: "cp div 64 * 64 + cp mod 64 = cp" by simp
  have u: "utf8_of cp = [192 + cp div 64, 128 + cp mod 64]"
    using assms by (simp add: utf8_of_def)
  show ?thesis
    unfolding u using q r assms(1) by (simp add: continuation_def e Let_def)
qed

lemma shift_digit:
  fixes d n m :: nat
  shows "d div n * (n * m) + d mod n * m = d * m"
proof -
  have "d div n * (n * m) + d mod n * m = d div n * n * m + d mod n * m"
    by (simp only: mult.assoc)
  also have "\<dots> = (d div n * n + d mod n) * m"
    by (simp only: distrib_right)
  also have "\<dots> = d * m" by simp
  finally show ?thesis .
qed

lemma three_digits:
  fixes cp :: nat
  shows "cp div 4096 * 4096 + cp div 64 mod 64 * 64 + cp mod 64 = cp"
proof -
  have 1: "cp div 4096 = cp div 64 div 64" by (simp add: div_mult2_eq)
  have "cp div 64 div 64 * (64 * 64) + cp div 64 mod 64 * 64 = cp div 64 * 64"
    by (rule shift_digit)
  then have "cp div 64 div 64 * 4096 + cp div 64 mod 64 * 64 = cp div 64 * 64" by simp
  moreover have "cp div 64 * 64 + cp mod 64 = cp" by simp
  ultimately show ?thesis by (simp only: 1)
qed

lemma four_digits:
  fixes cp :: nat
  shows "cp div 262144 * 262144 + cp div 4096 mod 64 * 4096 + cp div 64 mod 64 * 64 + cp mod 64
           = cp"
proof -
  have 1: "cp div 262144 = cp div 4096 div 64" by (simp add: div_mult2_eq)
  have "cp div 4096 div 64 * (64 * 4096) + cp div 4096 mod 64 * 4096 = cp div 4096 * 4096"
    by (rule shift_digit)
  then have "cp div 4096 div 64 * 262144 + cp div 4096 mod 64 * 4096 = cp div 4096 * 4096"
    by simp
  then show ?thesis using three_digits [of cp] by (simp only: 1)
qed

lemma utf8_three:
  assumes "2048 \<le> cp" "cp < 65536" "\<not> (55296 \<le> cp \<and> cp < 57344)"
  shows "utf8_decode (utf8_of cp @ rest) = map_option (\<lambda>cs. cp # cs) (utf8_decode rest)"
proof -
  have q: "cp div 4096 < 16" using assms by (simp add: less_mult_imp_div_less)
  have u: "utf8_of cp = [224 + cp div 4096, 128 + cp div 64 mod 64, 128 + cp mod 64]"
    using assms by (simp add: utf8_of_def)
  have c: "continuation (128 + cp div 64 mod 64)" "continuation (128 + cp mod 64)"
    by (simp_all add: continuation_def)
  have v: "(224 + cp div 4096 - 224) * 4096 + (128 + cp div 64 mod 64 - 128) * 64
             + (128 + cp mod 64 - 128) = cp"
    using three_digits [of cp] by simp
  have b: "\<not> 224 + cp div 4096 < 128" "\<not> (192 \<le> 224 + cp div 4096 \<and> 224 + cp div 4096 < 224)"
    "224 \<le> 224 + cp div 4096 \<and> 224 + cp div 4096 < 240"
    using q by simp_all
  show ?thesis
    unfolding u append_Cons append_Nil utf8_decode.simps
    by (simp only: b if_True if_False list.case Let_def v c assms simp_thms)
qed

lemma utf8_four:
  assumes "65536 \<le> cp" "cp < 1114112"
  shows "utf8_decode (utf8_of cp @ rest) = map_option (\<lambda>cs. cp # cs) (utf8_decode rest)"
proof -
  have q: "cp div 262144 < 8" using assms by (simp add: less_mult_imp_div_less)
  have u: "utf8_of cp = [240 + cp div 262144, 128 + cp div 4096 mod 64,
      128 + cp div 64 mod 64, 128 + cp mod 64]"
    using assms by (simp add: utf8_of_def)
  have c: "continuation (128 + cp div 4096 mod 64)" "continuation (128 + cp div 64 mod 64)"
      "continuation (128 + cp mod 64)"
    by (simp_all add: continuation_def)
  have v: "(240 + cp div 262144 - 240) * 262144 + (128 + cp div 4096 mod 64 - 128) * 4096
             + (128 + cp div 64 mod 64 - 128) * 64 + (128 + cp mod 64 - 128) = cp"
    using four_digits [of cp] by simp
  have b: "\<not> 240 + cp div 262144 < 128"
    "\<not> (192 \<le> 240 + cp div 262144 \<and> 240 + cp div 262144 < 224)"
    "\<not> (224 \<le> 240 + cp div 262144 \<and> 240 + cp div 262144 < 240)"
    "240 \<le> 240 + cp div 262144 \<and> 240 + cp div 262144 < 248"
    using q by simp_all
  show ?thesis
    unfolding u append_Cons append_Nil utf8_decode.simps
    by (simp only: b if_True if_False list.case Let_def v c assms simp_thms)
qed

lemma utf8_scalar:
  assumes "scalar cp"
  shows "utf8_decode (utf8_of cp @ rest) = map_option (\<lambda>cs. cp # cs) (utf8_decode rest)"
proof -
  consider "cp < 128" | "128 \<le> cp" "cp < 2048" | "2048 \<le> cp" "cp < 65536"
    | "65536 \<le> cp" by linarith
  then show ?thesis
  proof cases
    case 1 then show ?thesis by (rule utf8_one)
  next
    case 2 then show ?thesis by (rule utf8_two)
  next
    case 3 then show ?thesis using assms by (intro utf8_three) (auto simp: scalar_def)
  next
    case 4 then show ?thesis using assms by (intro utf8_four) (auto simp: scalar_def)
  qed
qed

lemma utf8_decode_encode:
  "list_all scalar cps \<Longrightarrow> utf8_decode (concat (map utf8_of cps)) = Some cps"
  by (induction cps) (simp_all add: utf8_scalar)

lemma utf8_bytes: "cp < 1114112 \<Longrightarrow> list_all (\<lambda>b. b < 256) (utf8_of cp)"
proof -
  assume a: "cp < 1114112"
  have "cp < 2048 \<Longrightarrow> cp div 64 < 32" "cp < 65536 \<Longrightarrow> cp div 4096 < 16" "cp div 262144 < 8"
    using a by (simp_all add: less_mult_imp_div_less)
  moreover have "cp mod 64 < 64" "cp div 64 mod 64 < 64" "cp div 4096 mod 64 < 64" by simp_all
  ultimately show ?thesis by (auto simp: utf8_of_def)
qed

lemma utf8_all_bytes:
  "list_all scalar cps \<Longrightarrow> list_all (\<lambda>b. b < 256) (concat (map utf8_of cps))"
  by (induction cps) (simp_all add: utf8_bytes scalar_def)

lemma surrogate_pair:
  assumes "high_surrogate u" "low_surrogate v"
  shows "scalar (65536 + (u - 55296) * 1024 + (v - 56320))"
    and "utf16_of (65536 + (u - 55296) * 1024 + (v - 56320)) = [u, v]"
proof -
  have a: "u - 55296 < 1024" "v - 56320 < 1024" "55296 \<le> u" "56320 \<le> v"
    using assms by (auto simp: high_surrogate_def low_surrogate_def)
  then have "(u - 55296) * 1024 + (v - 56320) < 1048576" by linarith
  then show "scalar (65536 + (u - 55296) * 1024 + (v - 56320))"
    by (simp add: scalar_def)
  have "((u - 55296) * 1024 + (v - 56320)) div 1024 = u - 55296"
    "((u - 55296) * 1024 + (v - 56320)) mod 1024 = v - 56320"
    using a(2) by simp_all
  then show "utf16_of (65536 + (u - 55296) * 1024 + (v - 56320)) = [u, v]"
    using a by (simp add: utf16_of_def)
qed

lemma code_points_back:
  "code_points s = Some cps \<Longrightarrow> list_all (\<lambda>c. c < 65536) s \<Longrightarrow>
   list_all scalar cps \<and> concat (map utf16_of cps) = s"
proof (induction s arbitrary: cps rule: code_points.induct)
  case 1
  then show ?case by simp
next
  case (2 u)
  then show ?case
    by (auto simp: scalar_def utf16_of_def high_surrogate_def low_surrogate_def split: if_splits)
next
  case (3 u v us)
  show ?case
  proof (cases "high_surrogate u")
    case True
    with "3.prems" obtain cs where cs: "low_surrogate v" "code_points us = Some cs"
        "cps = (65536 + (u - 55296) * 1024 + (v - 56320)) # cs"
      by (auto split: if_splits)
    from "3.IH"(1) [OF True cs(1) cs(2)] "3.prems"(2)
    have "list_all scalar cs \<and> concat (map utf16_of cs) = us" by simp
    then show ?thesis using surrogate_pair [OF True cs(1)] cs(3) by simp
  next
    case False
    with "3.prems" obtain cs where cs: "\<not> low_surrogate u" "code_points (v # us) = Some cs"
        "cps = u # cs"
      by (auto split: if_splits)
    from "3.IH"(2) [OF False cs(1) cs(2)] "3.prems"(2)
    have "list_all scalar cs \<and> concat (map utf16_of cs) = v # us" by simp
    moreover have "scalar u" "utf16_of u = [u]"
      using False cs(1) "3.prems"(2)
      by (auto simp: scalar_def utf16_of_def high_surrogate_def low_surrogate_def)
    ultimately show ?thesis using cs(3) by simp
  qed
qed

lemma show_nat_digits: "list_all is_digit (show_nat n) \<and> show_nat n \<noteq> []"
proof (induction n rule: show_nat.induct)
  case (1 n)
  show ?case
  proof (cases "n < 10")
    case True
    then show ?thesis by (subst (1 2) show_nat.simps) (simp add: is_digit_def)
  next
    case False
    have "n mod 10 < 10" by simp
    then have "is_digit (48 + n mod 10)" unfolding is_digit_def by linarith
    then show ?thesis using False 1 by (subst (1 2) show_nat.simps) simp
  qed
qed

lemma digits_value_append:
  "digits_value b acc (xs @ ys)
     = (case digits_value b acc xs of None \<Rightarrow> None | Some a \<Rightarrow> digits_value b a ys)"
  by (induction xs arbitrary: acc) (simp_all split: option.splits)

lemma digit_in_ten: "d < 10 \<Longrightarrow> digit_in 10 (48 + d) = Some d"
  by (simp add: digit_in_def)

lemma digits_value_show_nat: "digits_value 10 0 (show_nat n) = Some n"
proof (induction n rule: show_nat.induct)
  case (1 n)
  show ?case
  proof (cases "n < 10")
    case True
    then show ?thesis by (subst show_nat.simps) (simp add: digit_in_ten)
  next
    case False
    have d: "digit_in 10 (48 + n mod 10) = Some (n mod 10)" by (rule digit_in_ten) simp
    show ?thesis
      using False 1 by (subst show_nat.simps) (simp add: digits_value_append d)
  qed
qed

lemma digits_not_space: "is_digit c \<Longrightarrow> \<not> white_space c"
  by (auto simp: is_digit_def white_space_def)

lemma trim_same:
  assumes "s \<noteq> []" "\<not> white_space (hd s)" "\<not> white_space (last s)"
  shows "trim s = s"
proof -
  have 1: "dropWhile white_space s = s" using assms by (cases s) auto
  have "rev s \<noteq> []" "\<not> white_space (hd (rev s))" using assms by (simp_all add: hd_rev)
  then have 2: "dropWhile white_space (rev s) = rev s" by (cases "rev s") auto
  show ?thesis by (simp add: trim_def 1 2)
qed

lemma unsigned_decimal_show_nat: "unsigned_decimal (show_nat n) = Fin (of_nat n)"
proof -
  have d: "list_all is_digit (show_nat n)" and ne: "show_nat n \<noteq> []"
    using show_nat_digits by auto
  have t: "takeWhile is_digit (show_nat n) = show_nat n" "dropWhile is_digit (show_nat n) = []"
    using d by (simp_all add: list_all_iff)
  have "is_digit (hd (show_nat n))" using d ne by (cases "show_nat n") auto
  then have "hd (show_nat n) \<noteq> 73" by (auto simp: is_digit_def)
  then have i: "show_nat n \<noteq> str ''Infinity''" by (auto simp: str_def)
  show ?thesis
    using i ne by (simp add: unsigned_decimal_def t digits_value_show_nat scale10_def Let_def)
qed

lemma Number_show_nat: "Number (show_nat n) = Fin (of_nat n)"
proof -
  have d: "list_all is_digit (show_nat n)" and ne: "show_nat n \<noteq> []"
    using show_nat_digits by auto
  have h: "is_digit (hd (show_nat n))" using d ne by (cases "show_nat n") auto
  have l: "is_digit (last (show_nat n))" using d ne by (simp add: list_all_iff)
  have t: "trim (show_nat n) = show_nat n"
    using ne h l by (intro trim_same) (auto dest: digits_not_space)
  have p: "\<not> startsWith (show_nat n) (str [CHR ''0'', x])" if x: "\<not> is_digit (of_char x)" for x
  proof
    assume a: "startsWith (show_nat n) (str [CHR ''0'', x])"
    show False
    proof (cases "show_nat n")
      case Nil
      then show ?thesis using ne by simp
    next
      case (Cons y ys)
      show ?thesis
      proof (cases ys)
        case Nil
        then show ?thesis using a Cons by (simp add: startsWith_def str_def)
      next
        case (Cons z zs)
        then have "z = of_char x" using a \<open>show_nat n = y # ys\<close>
          by (simp add: startsWith_def str_def)
        moreover have "is_digit z" using d Cons \<open>show_nat n = y # ys\<close> by simp
        ultimately show ?thesis using x by simp
      qed
    qed
  qed
  have q: "\<not> startsWith (show_nat n) (str ''0x'')" "\<not> startsWith (show_nat n) (str ''0X'')"
    "\<not> startsWith (show_nat n) (str ''0o'')" "\<not> startsWith (show_nat n) (str ''0O'')"
    "\<not> startsWith (show_nat n) (str ''0b'')" "\<not> startsWith (show_nat n) (str ''0B'')"
    by (rule p, simp add: is_digit_def)+
  have g: "hd (show_nat n) \<noteq> 45" "hd (show_nat n) \<noteq> 43" using h by (auto simp: is_digit_def)
  show ?thesis
    using ne q g by (simp add: Number_def t unsigned_decimal_show_nat Let_def)
qed

lemma Number_show_int: "Number (show_int n) = Fin (of_int n)"
proof (cases "n < 0")
  case False
  then show ?thesis by (simp add: show_int_def Number_show_nat)
next
  case True
  let ?m = "show_nat (nat (- n))"
  have d: "list_all is_digit ?m" and ne: "?m \<noteq> []" using show_nat_digits by auto
  have l: "is_digit (last ?m)" using d ne by (simp add: list_all_iff)
  have t: "trim (45 # ?m) = 45 # ?m"
    using ne l by (intro trim_same) (auto dest: digits_not_space simp: white_space_def)
  have q: "\<not> startsWith (45 # ?m) (str [CHR ''0'', x])" for x
    by (simp add: startsWith_def str_def)
  have "Number (45 # ?m) = negate (unsigned_decimal ?m)"
    using q by (simp add: Number_def t Let_def)
  then show ?thesis
    using True by (simp add: show_int_def unsigned_decimal_show_nat negate_def)
qed

lemma rating_back:
  "n \<noteq> 0 \<Longrightarrow> number_or_null (Number (show_int n)) = Some (Fin (of_int n))"
  by (simp add: Number_show_int number_or_null_def)

subsection \<open>The record codec\<close>

lemma fromBase64_toBase64:
  assumes "toBase64 s = Inr b" and "list_all (\<lambda>c. c < 65536) s"
  shows "fromBase64 b = s" and "10 \<notin> set b"
proof -
  from assms(1) obtain cps where c: "code_points s = Some cps"
    and b: "b = btoa (concat (map utf8_of cps))"
    by (auto simp: toBase64_def split: option.splits)
  from code_points_back [OF c assms(2)]
  have sc: "list_all scalar cps" and same: "concat (map utf16_of cps) = s" by simp_all
  have bb: "list_all (\<lambda>b. b < 256) (concat (map utf8_of cps))" by (rule utf8_all_bytes [OF sc])
  show "fromBase64 b = s"
    by (simp add: fromBase64_def b atob_btoa [OF bb] utf8_decode_encode [OF sc] same)
  show "10 \<notin> set b" unfolding b by (rule btoa_no_lf [OF bb])
qed

lemma plain_key_facts:
  assumes "plain_key k"
  shows "trim k = k" and "toUpperCase k = k" and "61 \<notin> set k" and "hd k \<noteq> 35"
    and "\<not> white_space (hd k)" and "k \<noteq> []"
proof -
  have a: "\<And>c. c \<in> set k \<Longrightarrow> (65 \<le> c \<and> c \<le> 90) \<or> c = 95 \<or> (48 \<le> c \<and> c \<le> 57)"
    and ne: "k \<noteq> []"
    using assms by (auto simp: plain_key_def list_all_iff)
  have w: "\<And>c. c \<in> set k \<Longrightarrow> \<not> white_space c"
    using a by (fastforce simp: white_space_def)
  show "k \<noteq> []" by (rule ne)
  show h: "\<not> white_space (hd k)" using w ne by simp
  show "trim k = k" using ne h w [of "last k"] by (intro trim_same) simp_all
  have "\<And>c. c \<in> set k \<Longrightarrow> upper_unit c = [c]"
    using a by (fastforce simp: upper_unit_def)
  then have "concat (map upper_unit k) = k" by (induction k) simp_all
  then show "toUpperCase k = k" by (simp add: toUpperCase_def)
  show "61 \<notin> set k" using a by fastforce
  have "hd k \<in> set k" using ne by simp
  from a [OF this] show "hd k \<noteq> 35" by auto
qed

lemma indexOf_first: "c \<notin> set k \<Longrightarrow> indexOf (k @ c # rest) c = Some (length k)"
  by (induction k) auto

lemma parse_line_var:
  assumes k: "plain_key k" and r: "rest \<noteq> []" "\<not> white_space (hd rest)"
    "\<not> white_space (last rest)"
  shows "parse_line J out (k @ 61 # rest) = store_var J out k (unquote rest)"
proof -
  note f = plain_key_facts [OF k]
  let ?line = "k @ 61 # rest"
  have t: "trim ?line = ?line"
    using f(5,6) r by (intro trim_same) (simp_all add: hd_append)
  have s: "\<not> startsWith ?line (str ''#'')"
    using f(4,6) by (cases k) (simp_all add: startsWith_def str_def)
  have i: "indexOf ?line 61 = Some (length k)" by (rule indexOf_first [OF f(3)])
  have tr: "trim rest = rest" using r by (intro trim_same)
  show ?thesis
    by (simp add: parse_line_def t s i f(1,2) tr store_var_def Let_def)
qed



lemma show_int_ends:
  "show_int n \<noteq> []" "\<not> white_space (hd (show_int n))" "\<not> white_space (last (show_int n))"
  "hd (show_int n) \<noteq> 34" "hd (show_int n) \<noteq> 39" "10 \<notin> set (show_int n)"
  "last (show_int n) \<noteq> 13"
proof -
  have d: "\<And>m. list_all is_digit (show_nat m)" and ne: "\<And>m. show_nat m \<noteq> []"
    using show_nat_digits by auto
  have a: "\<And>m c. c \<in> set (show_nat m) \<Longrightarrow> is_digit c" using d by (simp add: list_all_iff)
  have h: "\<And>m. is_digit (hd (show_nat m))" using a ne by (meson hd_in_set)
  have l: "\<And>m. is_digit (last (show_nat m))" using a ne by (meson last_in_set)
  show "show_int n \<noteq> []" using ne by (simp add: show_int_def)
  show "\<not> white_space (hd (show_int n))"
    using h digits_not_space by (auto simp: show_int_def white_space_def)
  show "\<not> white_space (last (show_int n))"
    using l ne digits_not_space by (auto simp: show_int_def)
  show "hd (show_int n) \<noteq> 34" "hd (show_int n) \<noteq> 39"
    using h [of "nat n"] h [of "nat (- n)"] by (auto simp: show_int_def is_digit_def)
  have "\<And>m. 10 \<notin> set (show_nat m)"
  proof
    fix m assume "10 \<in> set (show_nat m)"
    from a [OF this] show False by (simp add: is_digit_def)
  qed
  then show "10 \<notin> set (show_int n)" by (simp add: show_int_def)
  show "last (show_int n) \<noteq> 13"
    using l [of "nat n"] l [of "nat (- n)"] ne by (auto simp: show_int_def is_digit_def)
qed

lemma plain_var_parse:
  assumes "plain_key (str k)"
  shows "parse_line J out (plain_var k (show_int n)) = store_var J out (str k) (show_int n)"
proof -
  have q: "plain_var k (show_int n) = str k @ 61 # show_int n"
    by (simp add: plain_var_def str_def)
  have u: "unquote (show_int n) = show_int n"
    using show_int_ends(4,5) [of n] by (simp add: unquote_def)
  show ?thesis
    unfolding q by (subst parse_line_var [OF assms show_int_ends(1,2,3)]) (simp add: u)
qed

lemma keys_plain:
  "plain_key (str ''TEAM'')" "plain_key (str ''NAME'')" "plain_key (str ''SESSION'')"
  "plain_key (str ''FEELING'')" "plain_key (str ''PRODUCTIVITY'')"
  "plain_key (str ''UPDATED_AT'')" "plain_key (str ''UPDATE_B64'')"
  by (simp_all add: plain_key_def str_def)

lemma store_vars:
  "store_var J out (str ''TEAM'') v = out\<lparr>team := v\<rparr>"
  "store_var J out (str ''NAME'') v = out\<lparr>name := v\<rparr>"
  "store_var J out (str ''SESSION'') v = out\<lparr>session := v\<rparr>"
  "store_var J out (str ''FEELING'') v = out\<lparr>feeling := number_or_null (Number v)\<rparr>"
  "store_var J out (str ''PRODUCTIVITY'') v = out\<lparr>productivity := number_or_null (Number v)\<rparr>"
  "store_var J out (str ''UPDATED_AT'') v = out\<lparr>updated_at := v\<rparr>"
  "store_var J out (str ''UPDATE_B64'') v = out\<lparr>update := fromBase64 v\<rparr>"
  by (simp_all add: store_var_def str_def)

lemma plain_key_no_lf: "plain_key k \<Longrightarrow> 10 \<notin> set k"
  by (fastforce simp: plain_key_def list_all_iff)


lemma plain_var_line:
  "plain_key (str k) \<Longrightarrow>
   10 \<notin> set (plain_var k (show_int n))
   \<and> (plain_var k (show_int n) = [] \<or> last (plain_var k (show_int n)) \<noteq> 13)"
  using show_int_ends(1,6,7) [of n] plain_key_no_lf [of "str k"]
  by (simp add: plain_var_def) (simp add: str_def)




lemma rating_or_null:
  "number_or_null (Number (show_int n)) = (if n = 0 then None else Some (Fin (of_int n)))"
  by (simp add: Number_show_int number_or_null_def)









subsection \<open>Ratings as the parser reads them\<close>

lemma number_or_null_range:
  "number_or_null x \<noteq> Some NaN \<and> number_or_null x \<noteq> Some (Fin 0)"
  by (simp add: number_or_null_def)

lemma parse_reactions_ratings:
  "feeling (parse_reactions J out val) = feeling out
   \<and> productivity (parse_reactions J out val) = productivity out"
  by (simp add: parse_reactions_def Let_def split: option.splits)

lemma parse_line_ratings:
  assumes "feeling out \<noteq> Some NaN \<and> feeling out \<noteq> Some (Fin 0)
     \<and> productivity out \<noteq> Some NaN \<and> productivity out \<noteq> Some (Fin 0)"
  shows "feeling (parse_line J out raw) \<noteq> Some NaN
     \<and> feeling (parse_line J out raw) \<noteq> Some (Fin 0)
     \<and> productivity (parse_line J out raw) \<noteq> Some NaN
     \<and> productivity (parse_line J out raw) \<noteq> Some (Fin 0)"
  using assms
  by (simp add: parse_line_def Let_def parse_reactions_ratings number_or_null_range
      split: option.splits)

lemma foldl_ratings:
  assumes "feeling out \<noteq> Some NaN \<and> feeling out \<noteq> Some (Fin 0)
     \<and> productivity out \<noteq> Some NaN \<and> productivity out \<noteq> Some (Fin 0)"
  shows "feeling (foldl (parse_line J) out ls) \<noteq> Some NaN
     \<and> feeling (foldl (parse_line J) out ls) \<noteq> Some (Fin 0)
     \<and> productivity (foldl (parse_line J) out ls) \<noteq> Some NaN
     \<and> productivity (foldl (parse_line J) out ls) \<noteq> Some (Fin 0)"
  using assms
proof (induction ls arbitrary: out)
  case Nil
  then show ?case by simp
next
  case (Cons l ls)
  from parse_line_ratings [OF Cons.prems] show ?case by (simp add: Cons.IH)
qed

lemma parse_line_feeling_kept:
  "key_of raw \<noteq> Some (str ''FEELING'') \<Longrightarrow> feeling (parse_line J out raw) = feeling out"
  by (auto simp: parse_line_def key_of_def Let_def parse_reactions_ratings split: option.splits)

lemma parse_line_productivity_kept:
  "key_of raw \<noteq> Some (str ''PRODUCTIVITY'') \<Longrightarrow>
   productivity (parse_line J out raw) = productivity out"
  by (auto simp: parse_line_def key_of_def Let_def parse_reactions_ratings split: option.splits)

lemma foldl_feeling_kept:
  "\<forall>l\<in>set ls. key_of l \<noteq> Some (str ''FEELING'') \<Longrightarrow>
   feeling (foldl (parse_line J) out ls) = feeling out"
  by (induction ls arbitrary: out) (simp_all add: parse_line_feeling_kept)

lemma foldl_productivity_kept:
  "\<forall>l\<in>set ls. key_of l \<noteq> Some (str ''PRODUCTIVITY'') \<Longrightarrow>
   productivity (foldl (parse_line J) out ls) = productivity out"
  by (induction ls arbitrary: out) (simp_all add: parse_line_productivity_kept)

lemma rating_line:
  assumes "plain_key (str k)"
  shows "parseContentVars J (plain_var k (show_int n))
         = (let out = store_var J out_init (str k) (show_int n)
            in out\<lparr>reactions := default_reactions (reactions out)\<rparr>)"
proof -
  have "10 \<notin> set (plain_var k (show_int n))" using plain_var_line [OF assms] by simp
  then show ?thesis
    by (simp add: parseContentVars_def split_lines_no_lf plain_var_parse [OF assms])
qed

lemma parse_line_key:
  assumes "key_of raw = Some k"
  shows "parse_line J out raw = store_var J out k (value_of raw)"
proof -
  from assms obtain eq where "trim raw \<noteq> []" "\<not> startsWith (trim raw) (str ''#'')"
    "indexOf (trim raw) 61 = Some eq" "k = toUpperCase (trim (take eq (trim raw)))"
    by (auto simp: key_of_def Let_def split: if_splits option.splits)
  then show ?thesis by (simp add: parse_line_def value_of_def store_var_def Let_def)
qed

lemma last_feeling:
  assumes "split_lines body = pre @ l # post" and "key_of l = Some (str ''FEELING'')"
    and "\<forall>m\<in>set post. key_of m \<noteq> Some (str ''FEELING'')"
  shows "feeling (parseContentVars J body) = number_or_null (Number (value_of l))"
  using assms
  by (simp add: parseContentVars_def Let_def foldl_feeling_kept parse_line_key store_vars)

lemma last_productivity:
  assumes "split_lines body = pre @ l # post" and "key_of l = Some (str ''PRODUCTIVITY'')"
    and "\<forall>m\<in>set post. key_of m \<noteq> Some (str ''PRODUCTIVITY'')"
  shows "productivity (parseContentVars J body) = number_or_null (Number (value_of l))"
  using assms
  by (simp add: parseContentVars_def Let_def foldl_productivity_kept parse_line_key store_vars)

lemma number_or_null_cases:
  "(x = NaN \<longrightarrow> number_or_null x = None)
   \<and> (x = Fin 0 \<longrightarrow> number_or_null x = None)
   \<and> (\<forall>n. n \<noteq> 0 \<and> x = Fin (of_int n) \<longrightarrow> number_or_null x = Some (Fin (of_int n)))"
  by (simp add: number_or_null_def)

text \<open>
  Claim C2 (ratings as the parser reads them). \<open>parseContentVars\<close> returns a record for
  every body text: nothing in it throws but \<open>JSON.parse\<close>, which sits in a \<open>try\<close> block.
  In that record \<open>feeling\<close> and \<open>productivity\<close> are never \<open>NaN\<close> and never 0: each is
  \<open>null\<close> or a number other than 0. A text none of whose lines has the key \<open>FEELING\<close>
  (\<open>PRODUCTIVITY\<close>) gives \<open>null\<close> for it. Otherwise the last line with that key decides:
  a value that is no number gives \<open>null\<close>, a value that is 0 gives \<open>null\<close> as well, and a
  value that is a whole number other than 0, up to \<open>2^53\<close> either way, gives that number.
  So does the line \<open>buildContentVars\<close> writes for such a number.
\<close>

theorem ratings_unset_or_number:
  "feeling (parseContentVars J body) \<noteq> Some NaN
   \<and> feeling (parseContentVars J body) \<noteq> Some (Fin 0)
   \<and> productivity (parseContentVars J body) \<noteq> Some NaN
   \<and> productivity (parseContentVars J body) \<noteq> Some (Fin 0)
   \<and> ((\<forall>l\<in>set (split_lines body). key_of l \<noteq> Some (str ''FEELING''))
        \<longrightarrow> feeling (parseContentVars J body) = None)
   \<and> ((\<forall>l\<in>set (split_lines body). key_of l \<noteq> Some (str ''PRODUCTIVITY''))
        \<longrightarrow> productivity (parseContentVars J body) = None)
   \<and> (split_lines body = pre @ l # post \<and> key_of l = Some (str ''FEELING'')
        \<and> (\<forall>m\<in>set post. key_of m \<noteq> Some (str ''FEELING'')) \<longrightarrow>
        (Number (value_of l) = NaN \<longrightarrow> feeling (parseContentVars J body) = None)
        \<and> (Number (value_of l) = Fin 0 \<longrightarrow> feeling (parseContentVars J body) = None)
        \<and> (\<forall>n. n \<noteq> 0 \<and> \<bar>n\<bar> \<le> 9007199254740992 \<and> Number (value_of l) = Fin (of_int n) \<longrightarrow>
              feeling (parseContentVars J body) = Some (Fin (of_int n))))
   \<and> (split_lines body = pre @ l # post \<and> key_of l = Some (str ''PRODUCTIVITY'')
        \<and> (\<forall>m\<in>set post. key_of m \<noteq> Some (str ''PRODUCTIVITY'')) \<longrightarrow>
        (Number (value_of l) = NaN \<longrightarrow> productivity (parseContentVars J body) = None)
        \<and> (Number (value_of l) = Fin 0 \<longrightarrow> productivity (parseContentVars J body) = None)
        \<and> (\<forall>n. n \<noteq> 0 \<and> \<bar>n\<bar> \<le> 9007199254740992 \<and> Number (value_of l) = Fin (of_int n) \<longrightarrow>
              productivity (parseContentVars J body) = Some (Fin (of_int n))))
   \<and> (\<bar>k\<bar> \<le> 9007199254740992 \<longrightarrow>
        feeling (parseContentVars J (plain_var ''FEELING'' (show_int k)))
          = (if k = 0 then None else Some (Fin (of_int k)))
        \<and> productivity (parseContentVars J (plain_var ''PRODUCTIVITY'' (show_int k)))
          = (if k = 0 then None else Some (Fin (of_int k))))"
proof -
  have i: "feeling out_init \<noteq> Some NaN \<and> feeling out_init \<noteq> Some (Fin 0)
     \<and> productivity out_init \<noteq> Some NaN \<and> productivity out_init \<noteq> Some (Fin 0)"
    by (simp add: out_init_def)
  have a: "feeling (parseContentVars J body) \<noteq> Some NaN
     \<and> feeling (parseContentVars J body) \<noteq> Some (Fin 0)
     \<and> productivity (parseContentVars J body) \<noteq> Some NaN
     \<and> productivity (parseContentVars J body) \<noteq> Some (Fin 0)"
    using foldl_ratings [OF i, of J "split_lines body"] by (simp add: parseContentVars_def Let_def)
  have b: "(\<forall>l\<in>set (split_lines body). key_of l \<noteq> Some (str ''FEELING''))
        \<longrightarrow> feeling (parseContentVars J body) = None"
    by (simp add: parseContentVars_def Let_def foldl_feeling_kept out_init_def)
  have c: "(\<forall>l\<in>set (split_lines body). key_of l \<noteq> Some (str ''PRODUCTIVITY''))
        \<longrightarrow> productivity (parseContentVars J body) = None"
    by (simp add: parseContentVars_def Let_def foldl_productivity_kept out_init_def)
  have d: "split_lines body = pre @ l # post \<and> key_of l = Some (str ''FEELING'')
        \<and> (\<forall>m\<in>set post. key_of m \<noteq> Some (str ''FEELING'')) \<longrightarrow>
        (Number (value_of l) = NaN \<longrightarrow> feeling (parseContentVars J body) = None)
        \<and> (Number (value_of l) = Fin 0 \<longrightarrow> feeling (parseContentVars J body) = None)
        \<and> (\<forall>n. n \<noteq> 0 \<and> \<bar>n\<bar> \<le> 9007199254740992 \<and> Number (value_of l) = Fin (of_int n) \<longrightarrow>
              feeling (parseContentVars J body) = Some (Fin (of_int n)))"
  proof
    assume h: "split_lines body = pre @ l # post \<and> key_of l = Some (str ''FEELING'')
        \<and> (\<forall>m\<in>set post. key_of m \<noteq> Some (str ''FEELING''))"
    then have "feeling (parseContentVars J body) = number_or_null (Number (value_of l))"
      by (intro last_feeling) auto
    then show "(Number (value_of l) = NaN \<longrightarrow> feeling (parseContentVars J body) = None)
        \<and> (Number (value_of l) = Fin 0 \<longrightarrow> feeling (parseContentVars J body) = None)
        \<and> (\<forall>n. n \<noteq> 0 \<and> \<bar>n\<bar> \<le> 9007199254740992 \<and> Number (value_of l) = Fin (of_int n) \<longrightarrow>
              feeling (parseContentVars J body) = Some (Fin (of_int n)))"
      using number_or_null_cases [of "Number (value_of l)"] by simp
  qed
  have e: "split_lines body = pre @ l # post \<and> key_of l = Some (str ''PRODUCTIVITY'')
        \<and> (\<forall>m\<in>set post. key_of m \<noteq> Some (str ''PRODUCTIVITY'')) \<longrightarrow>
        (Number (value_of l) = NaN \<longrightarrow> productivity (parseContentVars J body) = None)
        \<and> (Number (value_of l) = Fin 0 \<longrightarrow> productivity (parseContentVars J body) = None)
        \<and> (\<forall>n. n \<noteq> 0 \<and> \<bar>n\<bar> \<le> 9007199254740992 \<and> Number (value_of l) = Fin (of_int n) \<longrightarrow>
              productivity (parseContentVars J body) = Some (Fin (of_int n)))"
  proof
    assume h: "split_lines body = pre @ l # post \<and> key_of l = Some (str ''PRODUCTIVITY'')
        \<and> (\<forall>m\<in>set post. key_of m \<noteq> Some (str ''PRODUCTIVITY''))"
    then have "productivity (parseContentVars J body) = number_or_null (Number (value_of l))"
      by (intro last_productivity) auto
    then show "(Number (value_of l) = NaN \<longrightarrow> productivity (parseContentVars J body) = None)
        \<and> (Number (value_of l) = Fin 0 \<longrightarrow> productivity (parseContentVars J body) = None)
        \<and> (\<forall>n. n \<noteq> 0 \<and> \<bar>n\<bar> \<le> 9007199254740992 \<and> Number (value_of l) = Fin (of_int n) \<longrightarrow>
              productivity (parseContentVars J body) = Some (Fin (of_int n)))"
      using number_or_null_cases [of "Number (value_of l)"] by simp
  qed
  have f: "\<bar>k\<bar> \<le> 9007199254740992 \<longrightarrow>
        feeling (parseContentVars J (plain_var ''FEELING'' (show_int k)))
          = (if k = 0 then None else Some (Fin (of_int k)))
        \<and> productivity (parseContentVars J (plain_var ''PRODUCTIVITY'' (show_int k)))
          = (if k = 0 then None else Some (Fin (of_int k)))"
    by (simp add: rating_line [OF keys_plain(4)] rating_line [OF keys_plain(5)] store_vars
        rating_or_null Let_def)
  from a b c d e f show ?thesis by blast
qed

lemma rating_lines:
  "split_lines (str ''FEELING=abc'') = [] @ str ''FEELING=abc'' # []
   \<and> key_of (str ''FEELING=abc'') = Some (str ''FEELING'')
   \<and> Number (value_of (str ''FEELING=abc'')) = NaN
   \<and> split_lines (str ''FEELING=7'' @ [10] @ str ''FEELING= \"0\" '' @ [10] @ str ''NAME=x'')
       = [str ''FEELING=7''] @ str ''FEELING= \"0\" '' # [str ''NAME=x'']
   \<and> key_of (str ''FEELING= \"0\" '') = Some (str ''FEELING'')
   \<and> Number (value_of (str ''FEELING= \"0\" '')) = Fin 0
   \<and> key_of (str ''NAME=x'') = Some (str ''NAME'')
   \<and> str ''NAME'' \<noteq> str ''FEELING'' \<and> str ''NAME'' \<noteq> str ''PRODUCTIVITY''
   \<and> split_lines (str ''productivity = 07'') = [] @ str ''productivity = 07'' # []
   \<and> key_of (str ''productivity = 07'') = Some (str ''PRODUCTIVITY'')
   \<and> Number (value_of (str ''productivity = 07'')) = Fin (of_int 7)
   \<and> split_lines (str ''NAME=x'') = [str ''NAME=x'']"
  by (simp add: key_of_def value_of_def trim_def white_space_def startsWith_def toUpperCase_def
      upper_unit_def unquote_def Number_def unsigned_decimal_def is_digit_def digit_in_def
      scale10_def Let_def str_def)

theorem ratings_unset_or_number_witness:
  "key_of (str ''FEELING=abc'') = Some (str ''FEELING'')
   \<and> Number (value_of (str ''FEELING=abc'')) = NaN
   \<and> feeling (parseContentVars never_parses (str ''FEELING=abc'')) = None
   \<and> key_of (str ''FEELING= \"0\" '') = Some (str ''FEELING'')
   \<and> Number (value_of (str ''FEELING= \"0\" '')) = Fin 0
   \<and> feeling (parseContentVars never_parses
        (str ''FEELING=7'' @ [10] @ str ''FEELING= \"0\" '' @ [10] @ str ''NAME=x'')) = None
   \<and> key_of (str ''productivity = 07'') = Some (str ''PRODUCTIVITY'')
   \<and> Number (value_of (str ''productivity = 07'')) = Fin (of_int 7)
   \<and> productivity (parseContentVars never_parses (str ''productivity = 07'')) = Some (Fin 7)
   \<and> key_of (str ''NAME=x'') = Some (str ''NAME'')
   \<and> feeling (parseContentVars never_parses (str ''NAME=x'')) = None
   \<and> productivity (parseContentVars never_parses (str ''NAME=x'')) = None
   \<and> feeling (parseContentVars never_parses (plain_var ''FEELING'' (show_int 10)))
       = Some (Fin 10)"
proof -
  note r = rating_lines
  note th = ratings_unset_or_number [where J = never_parses]
  from th [where body = "str ''FEELING=abc''" and pre = "[]" and l = "str ''FEELING=abc''"
      and post = "[]"] r
  have 1: "feeling (parseContentVars never_parses (str ''FEELING=abc'')) = None" by simp
  from th [where body = "str ''FEELING=7'' @ [10] @ str ''FEELING= \"0\" '' @ [10] @ str ''NAME=x''"
      and pre = "[str ''FEELING=7'']" and l = "str ''FEELING= \"0\" ''"
      and post = "[str ''NAME=x'']"] r
  have 2: "feeling (parseContentVars never_parses
        (str ''FEELING=7'' @ [10] @ str ''FEELING= \"0\" '' @ [10] @ str ''NAME=x'')) = None"
    by simp
  from th [where body = "str ''productivity = 07''" and pre = "[]"
      and l = "str ''productivity = 07''" and post = "[]"] r
  have 3: "productivity (parseContentVars never_parses (str ''productivity = 07''))
             = Some (Fin 7)"
    by simp
  from th [where body = "str ''NAME=x''"] r
  have 4: "feeling (parseContentVars never_parses (str ''NAME=x'')) = None"
    and 5: "productivity (parseContentVars never_parses (str ''NAME=x'')) = None"
    by simp_all
  from th [where k = 10]
  have 6: "feeling (parseContentVars never_parses (plain_var ''FEELING'' (show_int 10)))
       = Some (Fin 10)"
    by simp
  from r 1 2 3 4 5 6 show ?thesis by simp
qed

text \<open>
  A body with the rating 0 reads as one with no rating: both fields are \<open>null\<close>, not
  the number 0.
\<close>

theorem zero_rating_reads_as_unset_counterexample:
  "feeling (parseContentVars never_parses (str ''FEELING=0'' @ [10] @ str ''PRODUCTIVITY=0'')) = None
   \<and> productivity (parseContentVars never_parses (str ''FEELING=0'' @ [10] @ str ''PRODUCTIVITY=0''))
       = None
   \<and> feeling (parseContentVars never_parses []) = None
   \<and> feeling (parseContentVars never_parses (str ''FEELING=abc'')) = None
   \<and> feeling (parseContentVars never_parses (str ''FEELING=7'')) = Some (Fin 7)"
  by (simp add: parseContentVars_def parse_line_def trim_def white_space_def startsWith_def
      toUpperCase_def upper_unit_def unquote_def Number_def unsigned_decimal_def
      is_digit_def digit_in_def number_or_null_def out_init_def scale10_def Let_def str_def)

subsection \<open>The ETag cache\<close>

text \<open>
  An entry is \<open>by_fetch\<close> of a path when the store has answered the read of that path
  with a 2xx status and a JSON body, and the entry is what the read makes of that answer.
\<close>

definition by_fetch :: "(jsstring \<Rightarrow> file_json answer) \<Rightarrow> jsstring \<Rightarrow> file_entry option \<Rightarrow> bool" where
  "by_fetch fetch p e =
     (\<exists>res j. fetch p = Inr res \<and> ok res \<and> bodyJson res = Inr j
        \<and> e = Some (fetched_entry res j))"

lemma readFileContent_cache:
  "snd (readFileContent path files ans) = files
   \<or> (\<exists>res j. ans = Inr res \<and> ok res \<and> bodyJson res = Inr j
        \<and> snd (readFileContent path files ans) = files(path \<mapsto> fetched_entry res j))"
  by (auto simp: readFileContent_def fetched_entry_def split: sum.splits)

lemma readJsonFile_cache:
  "snd (readJsonFile J path files ans) = snd (readFileContent path files ans)"
  by (simp add: readJsonFile_def readFileContent_def split: sum.splits)

lemma read_files_step:
  "snd (read_files env files (it # its))
     = (case fst (readFileContent (apiPath env it) files (fetchFile env (apiPath env it))) of
          Inl e \<Rightarrow> snd (readFileContent (apiPath env it) files (fetchFile env (apiPath env it)))
        | Inr txt \<Rightarrow>
            snd (read_files env
              (snd (readFileContent (apiPath env it) files (fetchFile env (apiPath env it)))) its))"
  by (simp add: Let_def split: prod.splits sum.splits)

lemma one_read_entry:
  "snd (readFileContent path files (fetch path)) p = files p
   \<or> by_fetch fetch p (snd (readFileContent path files (fetch path)) p)"
  using readFileContent_cache [of path files "fetch path"]
  by (auto simp: by_fetch_def)

lemma read_files_entry:
  "snd (read_files env files its) p = files p
   \<or> by_fetch (fetchFile env) p (snd (read_files env files its) p)"
proof (induction its arbitrary: files)
  case Nil
  then show ?case by simp
next
  case (Cons it its)
  let ?r = "readFileContent (apiPath env it) files (fetchFile env (apiPath env it))"
  note one = one_read_entry [of "apiPath env it" files "fetchFile env" p]
  show ?case
  proof (cases "fst ?r")
    case (Inl e)
    then show ?thesis using one by (simp add: read_files_step del: read_files.simps)
  next
    case (Inr t)
    then have s: "snd (read_files env files (it # its)) = snd (read_files env (snd ?r) its)"
      by (simp add: read_files_step del: read_files.simps)
    from Cons.IH [of "snd ?r"] one show ?thesis unfolding s by auto
  qed
qed

lemma read_registry_entry:
  "read_registry env files its p = files p
   \<or> by_fetch (fetchRegistry env) p (read_registry env files its p)"
proof (induction its arbitrary: files)
  case Nil
  then show ?case by simp
next
  case (Cons it its)
  let ?f = "snd (readFileContent (apiPath env it) files (fetchRegistry env (apiPath env it)))"
  note one = one_read_entry [of "apiPath env it" files "fetchRegistry env" p]
  from Cons.IH [of ?f] one show ?case by (auto simp: readJsonFile_cache)
qed

lemma cycle_body_fileCache:
  "fileCache (snd (cycle_body env s))
     = (let files0 = read_registry env (fileCache s)
                       (fst (listRegistry (registryPath env)
                          (snd (listDirectory (dirPath env) (dirCache s) (listing env)))
                          (registryListing env)))
        in if tOk env
           then snd (read_files env files0
                  (filter (selected env)
                     (fst (listDirectory (dirPath env) (dirCache s) (listing env)))))
           else files0)"
  by (simp add: cycle_body_def discoverTeamsFromGitHub_def Let_def split: prod.splits sum.splits)

lemma cycle_body_entry:
  "fileCache (snd (cycle_body env s)) p = fileCache s p
   \<or> by_fetch (fetchFile env) p (fileCache (snd (cycle_body env s)) p)
   \<or> by_fetch (fetchRegistry env) p (fileCache (snd (cycle_body env s)) p)"
proof -
  let ?regs = "fst (listRegistry (registryPath env)
                 (snd (listDirectory (dirPath env) (dirCache s) (listing env)))
                 (registryListing env))"
  let ?its = "filter (selected env) (fst (listDirectory (dirPath env) (dirCache s) (listing env)))"
  let ?f0 = "read_registry env (fileCache s) ?regs"
  note a = read_registry_entry [of env "fileCache s" ?regs p]
  note b = read_files_entry [of env ?f0 ?its p]
  show ?thesis
  proof (cases "tOk env")
    case False
    then show ?thesis using a by (auto simp: cycle_body_fileCache Let_def)
  next
    case True
    then have "fileCache (snd (cycle_body env s)) = snd (read_files env ?f0 ?its)"
      by (simp add: cycle_body_fileCache Let_def)
    then show ?thesis using a b by auto
  qed
qed

lemma cycle_end_caches:
  "fileCache (cycle_end poll os) = fileCache (snd os)"
  "dirCache (cycle_end poll os) = dirCache (snd os)"
  by (simp_all add: cycle_end_def scheduleNextPoll_def clearTimeout_def on_error_def Let_def
      split: outcome.splits option.splits)

lemma step_entry:
  "fileCache (st (step g e)) p = fileCache (st g) p
   \<or> (\<exists>env. e = Completes env
        \<and> (by_fetch (fetchFile env) p (fileCache (st (step g e)) p)
           \<or> by_fetch (fetchRegistry env) p (fileCache (st (step g e)) p)))"
proof (cases e)
  case Invoke
  then show ?thesis by (simp add: invoke_def)
next
  case TimerFires
  then show ?thesis by (simp add: invoke_def split: list.splits)
next
  case (Completes env)
  then show ?thesis using cycle_body_entry [of env "st g" p] by (auto simp: cycle_end_caches)
qed

lemma run_entry:
  "fileCache (st (run g es)) p = fileCache (st g) p
   \<or> (\<exists>env. Completes env \<in> set es
        \<and> (by_fetch (fetchFile env) p (fileCache (st (run g es)) p)
           \<or> by_fetch (fetchRegistry env) p (fileCache (st (run g es)) p)))"
  unfolding run_def
proof (induction es arbitrary: g)
  case Nil
  then show ?case by simp
next
  case (Cons e es)
  let ?final = "fileCache (st (foldl step (step g e) es)) p"
  from Cons.IH [of "step g e"]
  consider "?final = fileCache (st (step g e)) p"
    | env where "Completes env \<in> set es"
        "by_fetch (fetchFile env) p ?final \<or> by_fetch (fetchRegistry env) p ?final"
    by auto
  then show ?case
  proof cases
    case 1
    with step_entry [of g e p] show ?thesis by auto
  next
    case 2
    then show ?thesis by auto
  qed
qed

lemma ghGetJsonWithEtag_dom: "dom dirs \<subseteq> dom (snd (ghGetJsonWithEtag path dirs ans))"
  by (auto simp: ghGetJsonWithEtag_def split: sum.splits)

lemma listDirectory_dom: "dom dirs \<subseteq> dom (snd (listDirectory path dirs ans))"
  using ghGetJsonWithEtag_dom [of dirs path ans]
  by (auto simp: listDirectory_def split: prod.splits sum.splits)

lemma listRegistry_dom: "dom dirs \<subseteq> dom (snd (listRegistry path dirs ans))"
  using ghGetJsonWithEtag_dom [of dirs path ans]
  by (auto simp: listRegistry_def split: prod.splits sum.splits)

lemma cycle_body_dirCache:
  "dom (dirCache s) \<subseteq> dom (dirCache (snd (cycle_body env s)))"
proof -
  let ?d0 = "snd (listDirectory (dirPath env) (dirCache s) (listing env))"
  let ?d1 = "snd (listRegistry (registryPath env) ?d0 (registryListing env))"
  let ?d2 = "snd (listDirectory (dirPath env) ?d1 (listingAgain env))"
  have c: "dirCache (snd (cycle_body env s)) = ?d1 \<or> dirCache (snd (cycle_body env s)) = ?d2"
    by (simp add: cycle_body_def discoverTeamsFromGitHub_def split: prod.splits sum.splits)
  have "dom (dirCache s) \<subseteq> dom ?d0" by (rule listDirectory_dom)
  also have "dom ?d0 \<subseteq> dom ?d1" by (rule listRegistry_dom)
  finally have 1: "dom (dirCache s) \<subseteq> dom ?d1" .
  also have "dom ?d1 \<subseteq> dom ?d2" by (rule listDirectory_dom)
  finally have 2: "dom (dirCache s) \<subseteq> dom ?d2" .
  from c 1 2 show ?thesis by metis
qed

lemma step_dirCache: "dom (dirCache (st g)) \<subseteq> dom (dirCache (st (step g e)))"
proof (cases e)
  case Invoke
  then show ?thesis by (simp add: invoke_def)
next
  case TimerFires
  then show ?thesis by (simp add: invoke_def split: list.splits)
next
  case (Completes env)
  then show ?thesis using cycle_body_dirCache [of "st g" env] by (simp add: cycle_end_caches)
qed

lemma run_dirCache: "dom (dirCache (st g)) \<subseteq> dom (dirCache (st (run g es)))"
  unfolding run_def
proof (induction es arbitrary: g)
  case Nil
  then show ?case by simp
next
  case (Cons e es)
  from Cons.IH [of "step g e"] step_dirCache [of g e] show ?case by auto
qed

lemma run_fileCache: "dom (fileCache (st g)) \<subseteq> dom (fileCache (st (run g es)))"
proof
  fix p assume "p \<in> dom (fileCache (st g))"
  with run_entry [of g es p] show "p \<in> dom (fileCache (st (run g es)))"
    by (auto simp: by_fetch_def)
qed

lemma decoded_text:
  assumes "content j = Some c" and "encoding j = Some (str ''base64'')"
    and "toBase64 t = Inr (strip_newlines c)" and "list_all (\<lambda>u. u < 65536) t"
  shows "file_text j = t"
proof (cases "c = []")
  case True
  then have "toBase64 t = Inr []" using assms(3) by (simp add: strip_newlines_def)
  from fromBase64_toBase64(1) [OF this assms(4)] have "t = fromBase64 []" by simp
  then have "t = []"
    by (simp add: fromBase64_def atob_def strip_padding_def)
  then show ?thesis using True assms(1) by (simp add: file_text_def)
next
  case False
  then show ?thesis
    using assms(1,2) fromBase64_toBase64(1) [OF assms(3,4)] by (simp add: file_text_def)
qed

lemma read_all_entry:
  "read_all files ops p = files p
   \<or> (\<exists>r b. (p, Inr r) \<in> set ops \<and> ok r \<and> bodyJson r = Inr b
         \<and> read_all files ops p = Some (fetched_entry r b))"
  unfolding read_all_def
proof (induction ops arbitrary: files)
  case Nil
  then show ?case by simp
next
  case (Cons pa ops)
  let ?f = "snd (readFileContent (fst pa) files (snd pa))"
  let ?final = "foldl (\<lambda>f pa. snd (readFileContent (fst pa) f (snd pa))) ?f ops p"
  from Cons.IH [of ?f]
  consider "?final = ?f p"
    | r b where "(p, Inr r) \<in> set ops" "ok r" "bodyJson r = Inr b"
        "?final = Some (fetched_entry r b)"
    by auto
  then show ?case
  proof cases
    case 1
    from readFileContent_cache [of "fst pa" files "snd pa"]
    consider "?f = files"
      | res j where "snd pa = Inr res" "ok res" "bodyJson res = Inr j"
          "?f = files(fst pa \<mapsto> fetched_entry res j)"
      by auto
    then show ?thesis
    proof cases
      case 1
      with \<open>?final = ?f p\<close> show ?thesis by simp
    next
      case 2
      show ?thesis
      proof (cases "p = fst pa")
        case True
        then have "(p, Inr res) = pa" using 2(1) by (cases pa) simp
        then show ?thesis using \<open>?final = ?f p\<close> 2 True by auto
      next
        case False
        then show ?thesis using \<open>?final = ?f p\<close> 2 by simp
      qed
    qed
  next
    case 2
    then show ?thesis by auto
  qed
qed

lemma read_all_dom: "dom files \<subseteq> dom (read_all files ops)"
proof
  fix p assume "p \<in> dom files"
  with read_all_entry [of files ops p] show "p \<in> dom (read_all files ops)" by auto
qed

lemma readFileContent_dom: "dom files \<subseteq> dom (snd (readFileContent path files ans))"
  by (auto simp: readFileContent_def split: sum.splits)

text \<open>
  C8. One read: a read that the store answers 304 returns the cached text (the empty
  string when nothing is cached) and leaves the cache as it was; a read answered with a
  2xx status and a JSON body puts the entry made of the \<open>ETag\<close> header, the decoded text
  and the \<open>sha\<close> under the path in one update and returns the text; when the content of the
  answer is the Base64 of a text, with line feeds anywhere, that text is what is cached and
  returned; a read that throws leaves the cache as it was. \<open>readJsonFile\<close> treats the cache
  as \<open>readFileContent\<close> does, and the reaction write touches it through its read only.
  The life of the cache: in every run of the engine, from any state, the entry of a path
  is the one the run started with, or it is the entry made of a 2xx answer with a JSON
  body that the store gave to a read of that path in one of the cycles of the run; no path
  ever leaves the file cache or the directory cache. The same holds of any history of
  reads, in a cycle or out of one: the entry of a path is the one the history started
  with or the entry made of a 2xx answer with a JSON body to a read of that path, and no
  read takes a path out of a cache.
\<close>

theorem etag_cache_lifecycle:
  "(status res = 304 \<longrightarrow>
      readFileContent path files (Inr res)
        = (Inr (case files path of None \<Rightarrow> [] | Some prev \<Rightarrow> etext prev), files)
      \<and> snd (readJsonFile J path files (Inr res)) = files)
   \<and> (ok res \<and> bodyJson res = Inr j \<longrightarrow>
      readFileContent path files (Inr res)
        = (Inr (etext (fetched_entry res j)), files(path \<mapsto> fetched_entry res j))
      \<and> etag (fetched_entry res j) = etagHeader res
      \<and> esha (fetched_entry res j) = sha j)
   \<and> (content j = Some c \<and> encoding j = Some (str ''base64'')
        \<and> toBase64 t = Inr (strip_newlines c) \<and> list_all (\<lambda>u. u < 65536) t \<longrightarrow>
      etext (fetched_entry res j) = t)
   \<and> (content j = None \<or> content j = Some [] \<or> encoding j \<noteq> Some (str ''base64'') \<longrightarrow>
      etext (fetched_entry res j) = [])
   \<and> (\<forall>e. fst (readFileContent path files ans) = Inl e \<longrightarrow>
          snd (readFileContent path files ans) = files)
   \<and> (\<forall>q. q \<noteq> path \<longrightarrow> snd (readFileContent path files ans) q = files q)
   \<and> snd (readJsonFile J path files ans) = snd (readFileContent path files ans)
   \<and> snd (upsertMyReactions path files ans encoded) = snd (readFileContent path files ans)
   \<and> (fileCache (st (run g es)) p = fileCache (st g) p
       \<or> (\<exists>env r b. Completes env \<in> set es
             \<and> (fetchFile env p = Inr r \<or> fetchRegistry env p = Inr r)
             \<and> ok r \<and> bodyJson r = Inr b
             \<and> fileCache (st (run g es)) p = Some (fetched_entry r b)))
   \<and> dom (fileCache (st g)) \<subseteq> dom (fileCache (st (run g es)))
   \<and> dom (dirCache (st g)) \<subseteq> dom (dirCache (st (run g es)))
   \<and> (status dres = 304 \<longrightarrow>
      ghGetJsonWithEtag path dirs (Inr dres)
        = (Inr \<lparr>notModified = True,
                retag = (case dirs path of None \<Rightarrow> None | Some prev \<Rightarrow> detag prev),
                rdata = map_option data (dirs path)\<rparr>, dirs))
   \<and> (ok dres \<and> bodyJson dres = Inr d \<longrightarrow>
      ghGetJsonWithEtag path dirs (Inr dres)
        = (Inr \<lparr>notModified = False, retag = etagHeader dres, rdata = Some d\<rparr>,
           dirs(path \<mapsto> \<lparr>detag = etagHeader dres, data = d\<rparr>)))
   \<and> (\<forall>e. fst (ghGetJsonWithEtag path dirs dans) = Inl e \<longrightarrow>
          snd (ghGetJsonWithEtag path dirs dans) = dirs)
   \<and> (\<forall>q. q \<noteq> path \<longrightarrow> snd (ghGetJsonWithEtag path dirs dans) q = dirs q)
   \<and> dom files \<subseteq> dom (snd (readFileContent path files ans))
   \<and> dom dirs \<subseteq> dom (snd (ghGetJsonWithEtag path dirs dans))
   \<and> (read_all files ops p = files p
       \<or> (\<exists>r b. (p, Inr r) \<in> set ops \<and> ok r \<and> bodyJson r = Inr b
             \<and> read_all files ops p = Some (fetched_entry r b)))
   \<and> dom files \<subseteq> dom (read_all files ops)"
proof -
  have a: "status res = 304 \<longrightarrow>
      readFileContent path files (Inr res)
        = (Inr (case files path of None \<Rightarrow> [] | Some prev \<Rightarrow> etext prev), files)
      \<and> snd (readJsonFile J path files (Inr res)) = files"
    by (simp add: readFileContent_def readJsonFile_def)
  have b: "ok res \<and> bodyJson res = Inr j \<longrightarrow>
      readFileContent path files (Inr res)
        = (Inr (etext (fetched_entry res j)), files(path \<mapsto> fetched_entry res j))
      \<and> etag (fetched_entry res j) = etagHeader res
      \<and> esha (fetched_entry res j) = sha j"
    by (auto simp: readFileContent_def fetched_entry_def ok_def)
  have c: "content j = Some c \<and> encoding j = Some (str ''base64'')
        \<and> toBase64 t = Inr (strip_newlines c) \<and> list_all (\<lambda>u. u < 65536) t \<longrightarrow>
      etext (fetched_entry res j) = t"
    using decoded_text [of j c t] by (simp add: fetched_entry_def)
  have d: "content j = None \<or> content j = Some [] \<or> encoding j \<noteq> Some (str ''base64'') \<longrightarrow>
      etext (fetched_entry res j) = []"
    by (auto simp: fetched_entry_def file_text_def split: option.splits)
  have e: "\<forall>e. fst (readFileContent path files ans) = Inl e \<longrightarrow>
          snd (readFileContent path files ans) = files"
    by (auto simp: readFileContent_def split: sum.splits if_splits)
  have f: "\<forall>q. q \<noteq> path \<longrightarrow> snd (readFileContent path files ans) q = files q"
    by (auto simp: readFileContent_def split: sum.splits)
  have g: "snd (readJsonFile J path files ans) = snd (readFileContent path files ans)"
    by (rule readJsonFile_cache)
  have h: "snd (upsertMyReactions path files ans encoded) = snd (readFileContent path files ans)"
    by (simp add: upsertMyReactions_def split: prod.splits sum.splits)
  have i: "fileCache (st (run g es)) p = fileCache (st g) p
       \<or> (\<exists>env r b. Completes env \<in> set es
             \<and> (fetchFile env p = Inr r \<or> fetchRegistry env p = Inr r)
             \<and> ok r \<and> bodyJson r = Inr b
             \<and> fileCache (st (run g es)) p = Some (fetched_entry r b))"
    using run_entry [of g es p] unfolding by_fetch_def by blast
  have k: "dom (fileCache (st g)) \<subseteq> dom (fileCache (st (run g es)))" by (rule run_fileCache)
  have l: "dom (dirCache (st g)) \<subseteq> dom (dirCache (st (run g es)))" by (rule run_dirCache)
  have m: "status dres = 304 \<longrightarrow>
      ghGetJsonWithEtag path dirs (Inr dres)
        = (Inr \<lparr>notModified = True,
                retag = (case dirs path of None \<Rightarrow> None | Some prev \<Rightarrow> detag prev),
                rdata = map_option data (dirs path)\<rparr>, dirs)"
    by (simp add: ghGetJsonWithEtag_def)
  have n: "ok dres \<and> bodyJson dres = Inr d \<longrightarrow>
      ghGetJsonWithEtag path dirs (Inr dres)
        = (Inr \<lparr>notModified = False, retag = etagHeader dres, rdata = Some d\<rparr>,
           dirs(path \<mapsto> \<lparr>detag = etagHeader dres, data = d\<rparr>))"
    by (auto simp: ghGetJsonWithEtag_def ok_def)
  have o: "\<forall>e. fst (ghGetJsonWithEtag path dirs dans) = Inl e \<longrightarrow>
          snd (ghGetJsonWithEtag path dirs dans) = dirs"
    by (auto simp: ghGetJsonWithEtag_def split: sum.splits if_splits)
  have q: "\<forall>q. q \<noteq> path \<longrightarrow> snd (ghGetJsonWithEtag path dirs dans) q = dirs q"
    by (auto simp: ghGetJsonWithEtag_def split: sum.splits)
  have r: "dom files \<subseteq> dom (snd (readFileContent path files ans))"
    by (rule readFileContent_dom)
  have t: "dom dirs \<subseteq> dom (snd (ghGetJsonWithEtag path dirs dans))"
    by (rule ghGetJsonWithEtag_dom)
  have u: "read_all files ops p = files p
       \<or> (\<exists>r b. (p, Inr r) \<in> set ops \<and> ok r \<and> bodyJson r = Inr b
             \<and> read_all files ops p = Some (fetched_entry r b))"
    by (rule read_all_entry)
  have v: "dom files \<subseteq> dom (read_all files ops)" by (rule read_all_dom)
  show ?thesis
    apply (intro conjI)
    using a b c d e f g h i k l m n o q r t u v by blast+
qed

lemma name_y_encoded:
  "content name_y_json = Some (str ''TkFNRT15'' @ [10])
   \<and> encoding name_y_json = Some (str ''base64'')
   \<and> toBase64 (str ''NAME=y'') = Inr (strip_newlines (str ''TkFNRT15'' @ [10]))
   \<and> list_all (\<lambda>u. u < 65536) (str ''NAME=y'')"
  by (simp add: name_y_json_def toBase64_def high_surrogate_def low_surrogate_def utf8_of_def
      btoa_def b64_char_def strip_newlines_def str_def)

lemma no_new_version:
  "\<not> (\<exists>env r b. Completes env \<in> set [Invoke, Completes forbidden_cycle, TimerFires,
                                          Completes locked_cycle]
        \<and> (fetchFile env (str ''/a.txt'') = Inr r \<or> fetchRegistry env (str ''/a.txt'') = Inr r)
        \<and> ok r \<and> bodyJson r = Inr b \<and> e = Some (fetched_entry r b))"
  by (auto simp: forbidden_cycle_def locked_cycle_def cycle_with_def answering_def
      answer_with_def ok_def)

theorem etag_cache_lifecycle_witness:
  "status not_modified = 304
   \<and> readFileContent (str ''/a.txt'') cached_files (Inr not_modified)
       = (Inr (str ''TEAM=x''), cached_files)
   \<and> ok fresh_file \<and> bodyJson fresh_file = Inr name_y_json
   \<and> readFileContent (str ''/a.txt'') cached_files (Inr fresh_file)
       = (Inr (str ''NAME=y''),
          cached_files(str ''/a.txt'' \<mapsto>
            \<lparr>etag = Some (str ''W2''), etext = str ''NAME=y'', esha = Some (str ''s2'')\<rparr>))
   \<and> fileCache (st (run cached_engine
        [Invoke, Completes forbidden_cycle, TimerFires, Completes locked_cycle])) (str ''/a.txt'')
       = Some \<lparr>etag = Some (str ''W1''), etext = str ''TEAM=x'', esha = Some (str ''s1'')\<rparr>"
proof -
  have s: "status not_modified = 304" by (simp add: not_modified_def)
  have o: "ok fresh_file \<and> bodyJson fresh_file = Inr name_y_json"
    by (simp add: fresh_file_def ok_def)
  have c: "cached_files (str ''/a.txt'') = Some
      \<lparr>etag = Some (str ''W1''), etext = str ''TEAM=x'', esha = Some (str ''s1'')\<rparr>"
    by (simp add: cached_files_def)
  note th = etag_cache_lifecycle [where path = "str ''/a.txt''" and files = cached_files
      and j = name_y_json and c = "str ''TkFNRT15'' @ [10]" and t = "str ''NAME=y''"
      and g = cached_engine and p = "str ''/a.txt''"
      and es = "[Invoke, Completes forbidden_cycle, TimerFires, Completes locked_cycle]"]
  from th [where res = not_modified, THEN conjunct1] s c
  have 1: "readFileContent (str ''/a.txt'') cached_files (Inr not_modified)
       = (Inr (str ''TEAM=x''), cached_files)"
    by simp
  from th [where res = fresh_file, THEN conjunct2, THEN conjunct2, THEN conjunct1]
    name_y_encoded
  have t: "etext (fetched_entry fresh_file name_y_json) = str ''NAME=y''" by blast
  from th [where res = fresh_file, THEN conjunct2, THEN conjunct1] o
  have r: "readFileContent (str ''/a.txt'') cached_files (Inr fresh_file)
        = (Inr (etext (fetched_entry fresh_file name_y_json)),
           cached_files(str ''/a.txt'' \<mapsto> fetched_entry fresh_file name_y_json))"
    and e1: "etag (fetched_entry fresh_file name_y_json) = etagHeader fresh_file"
    and e2: "esha (fetched_entry fresh_file name_y_json) = sha name_y_json"
    by blast+
  have fe: "fetched_entry fresh_file name_y_json
      = \<lparr>etag = Some (str ''W2''), etext = str ''NAME=y'', esha = Some (str ''s2'')\<rparr>"
    using t e1 e2
    by (cases "fetched_entry fresh_file name_y_json") (simp add: fresh_file_def name_y_json_def)
  have 2: "readFileContent (str ''/a.txt'') cached_files (Inr fresh_file)
       = (Inr (str ''NAME=y''),
          cached_files(str ''/a.txt'' \<mapsto>
            \<lparr>etag = Some (str ''W2''), etext = str ''NAME=y'', esha = Some (str ''s2'')\<rparr>))"
    using r t by (simp add: fe)
  have "fileCache (st cached_engine) (str ''/a.txt'') = cached_files (str ''/a.txt'')"
    by (simp add: cached_engine_def)
  with th [where res = fresh_file, THEN conjunct2, THEN conjunct2, THEN conjunct2,
      THEN conjunct2, THEN conjunct2, THEN conjunct2, THEN conjunct2, THEN conjunct2,
      THEN conjunct1] no_new_version c
  have 3: "fileCache (st (run cached_engine
        [Invoke, Completes forbidden_cycle, TimerFires, Completes locked_cycle])) (str ''/a.txt'')
       = Some \<lparr>etag = Some (str ''W1''), etext = str ''TEAM=x'', esha = Some (str ''s1'')\<rparr>"
    by metis
  from s o 1 2 3 show ?thesis by blast
qed

end
